theory Spec2Isabelle
  imports Complex_Main
begin

section \<open>Python strings and integers\<close>

text \<open>
  A Python \<^verbatim>\<open>str\<close> is modelled as a \<^typ>\<open>string\<close>: one \<^typ>\<open>char\<close> stands for the code
  point of the same number, so the model covers the strings whose code points are below
  256 (and, where a text is put in upper case, whose upper case is below 256 as well). Python's \<^verbatim>\<open>int\<close> is \<^typ>\<open>int\<close>; a Python \<^verbatim>\<open>float\<close> that only carries a
  bit rate is an exact rational number (rounding is not modelled). A value that may be
  \<^verbatim>\<open>None\<close> is an \<^typ>\<open>'a option\<close>.
\<close>

definition digit_char :: "nat \<Rightarrow> char" where
  "digit_char d = ''0123456789'' ! d"

text \<open>\<^verbatim>\<open>str(n)\<close> and \<^verbatim>\<open>f"{n}"\<close> for an integer: decimal digits, a minus sign first.\<close>

fun str_nat :: "nat \<Rightarrow> string" where
  "str_nat n = (if n < 10 then [digit_char n] else str_nat (n div 10) @ [digit_char (n mod 10)])"

declare str_nat.simps [simp del]

definition str_int :: "int \<Rightarrow> string" where
  "str_int i = (if i < 0 then CHR ''-'' # str_nat (nat (- i)) else str_nat (nat i))"

text \<open>
  The format specification \<^verbatim>\<open>02d\<close>: at least two characters, padded with zeros
  between the sign and the digits.
\<close>

definition fmt_02d :: "int \<Rightarrow> string" where
  "fmt_02d i =
     (let s = str_int i in
      if i < 0 then CHR ''-'' # replicate (2 - length s) CHR ''0'' @ tl s
      else replicate (2 - length s) CHR ''0'' @ s)"

section \<open>Duration formatting\<close>

text \<open>
  \<^verbatim>\<open>VideoDownloader.format_duration\<close>. The argument is an integer number of seconds
  or \<^verbatim>\<open>None\<close>; \<^verbatim>\<open>//\<close> and \<^verbatim>\<open>%\<close> are floor division and its remainder, as
  \<open>div\<close> and \<open>mod\<close> on \<^typ>\<open>int\<close>.
\<close>

definition format_duration :: "int option \<Rightarrow> string" where
  "format_duration duration_seconds =
     (case duration_seconds of
        None \<Rightarrow> ''Unknown''
      | Some d \<Rightarrow>
          if d = 0 \<or> d \<le> 0 then ''Unknown''
          else
            let hours = d div 3600;
                minutes = (d mod 3600) div 60;
                seconds = d mod 60
            in if hours > 0
               then fmt_02d hours @ '':'' @ fmt_02d minutes @ '':'' @ fmt_02d seconds
               else fmt_02d minutes @ '':'' @ fmt_02d seconds)"

text \<open>A field of exactly two decimal digits, the tens first.\<close>

definition two_digits :: "int \<Rightarrow> string" where
  "two_digits n = [digit_char (nat (n div 10)), digit_char (nat (n mod 10))]"

definition is_space :: "char \<Rightarrow> bool" where
  "is_space c = (let n = (of_char c :: nat) in
     (9 \<le> n \<and> n \<le> 13) \<or> (28 \<le> n \<and> n \<le> 32) \<or> n = 133 \<or> n = 160)"

definition is_alnum :: "char \<Rightarrow> bool" where
  "is_alnum c = (let n = (of_char c :: nat) in
     (48 \<le> n \<and> n \<le> 57) \<or> (65 \<le> n \<and> n \<le> 90) \<or> (97 \<le> n \<and> n \<le> 122)
     \<or> n = 170 \<or> n = 178 \<or> n = 179 \<or> n = 181 \<or> n = 185 \<or> n = 186
     \<or> (188 \<le> n \<and> n \<le> 190) \<or> (192 \<le> n \<and> n \<le> 214)
     \<or> (216 \<le> n \<and> n \<le> 246) \<or> (248 \<le> n \<and> n \<le> 255))"

definition is_word :: "char \<Rightarrow> bool" where
  "is_word c = (is_alnum c \<or> c = CHR ''_'')"

text \<open>
  \<^verbatim>\<open>str.upper()\<close>, one character at a time. The letters \<^verbatim>\<open>a\<close> to \<^verbatim>\<open>z\<close> and the
  code points 224 to 254 other than 247 move down by 32; the sharp s (223) becomes the
  two letters \<^verbatim>\<open>SS\<close>; every other code point below 256 is its own upper case, except
  181 and 255: their upper case (U+039C and U+0178) lies beyond the code points a
  \<^typ>\<open>char\<close> can hold. The model leaves these two in place, so a statement that spells
  out an upper-cased text assumes \<open>upper_in_range\<close> of its characters.
\<close>

definition py_upper_char :: "char \<Rightarrow> string" where
  "py_upper_char c = (let n = (of_char c :: nat) in
     if (97 \<le> n \<and> n \<le> 122) \<or> (224 \<le> n \<and> n \<le> 254 \<and> n \<noteq> 247)
     then [char_of (n - 32)]
     else if n = 223 then ''SS''
     else [c])"

definition upper_in_range :: "char \<Rightarrow> bool" where
  "upper_in_range c = ((of_char c :: nat) \<noteq> 181 \<and> (of_char c :: nat) \<noteq> 255)"

definition py_lower_char :: "char \<Rightarrow> char" where
  "py_lower_char c = (let n = (of_char c :: nat) in
     if (65 \<le> n \<and> n \<le> 90) \<or> (192 \<le> n \<and> n \<le> 222 \<and> n \<noteq> 215)
     then char_of (n + 32) else c)"

definition upper :: "string \<Rightarrow> string" where
  "upper s = concat (map py_upper_char s)"

definition strip :: "string \<Rightarrow> string" where
  "strip s = rev (dropWhile is_space (rev (dropWhile is_space s)))"

fun startswith :: "string \<Rightarrow> string \<Rightarrow> bool" where
  "startswith s [] = True"
| "startswith [] (a # p) = False"
| "startswith (b # s) (a # p) = (a = b \<and> startswith s p)"

fun contains :: "string \<Rightarrow> string \<Rightarrow> bool" where
  "contains p [] = (p = [])"
| "contains p (c # cs) = (startswith (c # cs) p \<or> contains p cs)"

definition is_digit :: "char \<Rightarrow> bool" where
  "is_digit c = (c \<in> set ''0123456789'')"

definition digit_val :: "char \<Rightarrow> nat" where
  "digit_val c = of_char c - 48"

datatype py_error = TypeError | ValueError | OverflowError

definition valid_int_body :: "string \<Rightarrow> bool" where
  "valid_int_body b =
     (b \<noteq> [] \<and> is_digit (hd b) \<and> is_digit (last b)
      \<and> list_all (\<lambda>c. is_digit c \<or> c = CHR ''_'') b \<and> \<not> contains ''__'' b)"

definition digits_value :: "string \<Rightarrow> nat" where
  "digits_value b = foldl (\<lambda>a c. 10 * a + digit_val c) 0 (filter (\<lambda>c. c \<noteq> CHR ''_'') b)"

definition py_int_of_str :: "string \<Rightarrow> py_error + int" where
  "py_int_of_str s =
     (let t = strip s;
          neg = (t \<noteq> [] \<and> hd t = CHR ''-'');
          body = (if t \<noteq> [] \<and> (hd t = CHR ''-'' \<or> hd t = CHR ''+'') then tl t else t)
      in if valid_int_body body
         then Inr (if neg then - int (digits_value body) else int (digits_value body))
         else Inl ValueError)"


record format_candidate =
  fmt_format_id :: string
  fmt_height :: "int option"
  fmt_width :: "int option"
  fmt_ext :: string
  fmt_vcodec :: string
  fmt_acodec :: string
  fmt_filesize :: "int option"
  fmt_filesize_approx :: "int option"
  fmt_tbr :: "rat option"
  fmt_abr :: "rat option"

record processed_format =
  pf_format_id :: string
  pf_quality :: string
  pf_ext :: string
  pf_type :: string
  pf_filesize :: "int option"
  pf_tbr :: "rat option"
  pf_height :: "int option"
  pf_width :: "int option"

definition truthy :: "'a::zero option \<Rightarrow> bool" where
  "truthy x = (case x of None \<Rightarrow> False | Some n \<Rightarrow> n \<noteq> 0)"

definition py_or :: "'a::zero option \<Rightarrow> 'a option \<Rightarrow> 'a option" where
  "py_or a b = (if truthy a then a else b)"

definition height_ok :: "int option \<Rightarrow> bool" where
  "height_ok h = (case h of None \<Rightarrow> False | Some n \<Rightarrow> n \<noteq> 0 \<and> n \<ge> 144)"

definition fmt_opt_int :: "int option \<Rightarrow> string" where
  "fmt_opt_int h = (case h of None \<Rightarrow> ''None'' | Some n \<Rightarrow> str_int n)"

definition py_int_of_num :: "rat \<Rightarrow> int" where
  "py_int_of_num a = (if a \<ge> 0 then \<lfloor>a\<rfloor> else - \<lfloor>- a\<rfloor>)"

definition audio_quality :: "rat option \<Rightarrow> string \<Rightarrow> string" where
  "audio_quality abr ext =
     (case abr of
        Some a \<Rightarrow>
          if a \<noteq> 0 then ''Audio '' @ str_int (py_int_of_num a) @ ''kbps''
          else ''Audio ('' @ upper ext @ '')''
      | None \<Rightarrow> ''Audio ('' @ upper ext @ '')'')"

definition classify :: "format_candidate \<Rightarrow> (string \<times> string) option" where
  "classify fmt =
     (let format_id = fmt_format_id fmt;
          height = fmt_height fmt;
          ext = fmt_ext fmt;
          vcodec = fmt_vcodec fmt;
          acodec = fmt_acodec fmt
      in if format_id = [] \<or> startswith format_id ''sb'' then None
         else if vcodec \<noteq> ''none'' \<and> acodec \<noteq> ''none'' \<and> height_ok height
           then Some (''video'', fmt_opt_int height @ ''p (with audio)'')
         else if vcodec \<noteq> ''none'' \<and> height_ok height
           then Some (''video'', fmt_opt_int height @ ''p'')
         else if acodec \<noteq> ''none'' \<and> vcodec = ''none''
           then Some (''audio'', audio_quality (fmt_abr fmt) ext)
         else None)"

definition dedup_key :: "string \<Rightarrow> string \<Rightarrow> string \<Rightarrow> string" where
  "dedup_key format_type quality ext = format_type @ ''_'' @ quality @ ''_'' @ ext"

text \<open>
  The score of a candidate: the size when it is truthy, else the bit rate times 1000
  when the rate is truthy, else 0. The product is exact here; Python's product of a
  float rounds, so two rates that differ by less than the rounding can compare
  differently there.
\<close>

definition scaled_tbr :: "rat option \<Rightarrow> rat" where
  "scaled_tbr tbr = (case tbr of None \<Rightarrow> 0 | Some t \<Rightarrow> if t \<noteq> 0 then t * 1000 else 0)"

definition current_score :: "int option \<Rightarrow> rat option \<Rightarrow> rat" where
  "current_score filesize tbr =
     (case filesize of
        Some n \<Rightarrow> if n \<noteq> 0 then of_int n else scaled_tbr tbr
      | None \<Rightarrow> scaled_tbr tbr)"

definition stored_tbr_times_1000 :: "rat option \<Rightarrow> py_error + rat" where
  "stored_tbr_times_1000 tbr = (case tbr of None \<Rightarrow> Inl TypeError | Some t \<Rightarrow> Inr (t * 1000))"

definition existing_score :: "processed_format \<Rightarrow> py_error + rat" where
  "existing_score e =
     (case pf_filesize e of
        Some n \<Rightarrow> if n \<noteq> 0 then Inr (of_int n) else stored_tbr_times_1000 (pf_tbr e)
      | None \<Rightarrow> stored_tbr_times_1000 (pf_tbr e))"

type_synonym format_dict = "(string \<times> processed_format) list"

fun dict_set :: "string \<Rightarrow> 'v \<Rightarrow> (string \<times> 'v) list \<Rightarrow> (string \<times> 'v) list" where
  "dict_set k v [] = [(k, v)]"
| "dict_set k v ((k', v') # rest) =
     (if k = k' then (k, v) # rest else (k', v') # dict_set k v rest)"

definition make_entry :: "format_candidate \<Rightarrow> string \<Rightarrow> string \<Rightarrow> processed_format" where
  "make_entry fmt format_type quality_label =
     \<lparr> pf_format_id = fmt_format_id fmt,
       pf_quality = quality_label,
       pf_ext = fmt_ext fmt,
       pf_type = format_type,
       pf_filesize = py_or (fmt_filesize fmt) (fmt_filesize_approx fmt),
       pf_tbr = fmt_tbr fmt,
       pf_height = fmt_height fmt,
       pf_width = fmt_width fmt \<rparr>"

text \<open>
  The stored dictionary also holds \<^verbatim>\<open>filesize_mb\<close>, the size in megabytes rounded to
  one decimal, which nothing reads afterwards; the record leaves it out. Computing it can
  raise: \<^verbatim>\<open>filesize / 1024\<close> on an integer raises \<^verbatim>\<open>OverflowError\<close> when the quotient
  rounds beyond the largest float, that is from \<open>2 ^ 1034 - 2 ^ 980\<close> on in absolute
  value. The second division and \<^verbatim>\<open>round\<close> work on a float and do not raise. The value
  is computed only when the size is truthy, and only when the entry is stored.
\<close>

definition filesize_mb_raises :: "int option \<Rightarrow> bool" where
  "filesize_mb_raises filesize =
     (case filesize of
        None \<Rightarrow> False
      | Some n \<Rightarrow> n \<noteq> 0 \<and> \<bar>n\<bar> \<ge> 2 ^ 1034 - 2 ^ 980)"

definition store_format ::
    "string \<Rightarrow> processed_format \<Rightarrow> int option \<Rightarrow> format_dict \<Rightarrow> py_error + format_dict" where
  "store_format key entry fsize processed_formats =
     (if filesize_mb_raises fsize then Inl OverflowError
      else Inr (dict_set key entry processed_formats))"

text \<open>
  The body of the loop over the candidates. The score of the stored entry is read
  before the comparison, and only when the key is already in the dictionary.
\<close>

definition process_format :: "format_dict \<Rightarrow> format_candidate \<Rightarrow> py_error + format_dict" where
  "process_format processed_formats fmt =
     (case classify fmt of
        None \<Rightarrow> Inr processed_formats
      | Some (format_type, quality_label) \<Rightarrow>
          let key = dedup_key format_type quality_label (fmt_ext fmt);
              fsize = py_or (fmt_filesize fmt) (fmt_filesize_approx fmt);
              score = current_score fsize (fmt_tbr fmt);
              entry = make_entry fmt format_type quality_label
          in (case map_of processed_formats key of
                None \<Rightarrow> store_format key entry fsize processed_formats
              | Some existing \<Rightarrow>
                  (case existing_score existing of
                     Inl err \<Rightarrow> Inl err
                   | Inr old_score \<Rightarrow>
                       if score > old_score
                       then store_format key entry fsize processed_formats
                       else Inr processed_formats)))"

fun process_loop :: "format_dict \<Rightarrow> format_candidate list \<Rightarrow> py_error + format_dict" where
  "process_loop processed_formats [] = Inr processed_formats"
| "process_loop processed_formats (fmt # rest) =
     (case process_format processed_formats fmt of
        Inl err \<Rightarrow> Inl err
      | Inr d \<Rightarrow> process_loop d rest)"

definition format_priority :: "processed_format \<Rightarrow> py_error + (bool \<times> int)" where
  "format_priority fmt =
     (case (if CHR ''p'' \<in> set (pf_quality fmt)
            then py_int_of_str (takeWhile (\<lambda>c. c \<noteq> CHR ''p'') (pf_quality fmt))
            else Inr 0) of
        Inl err \<Rightarrow> Inl err
      | Inr quality_num \<Rightarrow> Inr (contains ''(with audio)'' (pf_quality fmt), quality_num))"

fun priorities :: "processed_format list \<Rightarrow> py_error + (bool \<times> int) list" where
  "priorities [] = Inr []"
| "priorities (fmt # rest) =
     (case format_priority fmt of
        Inl err \<Rightarrow> Inl err
      | Inr k \<Rightarrow> (case priorities rest of Inl err \<Rightarrow> Inl err | Inr ks \<Rightarrow> Inr (k # ks)))"

definition key_less :: "bool \<times> int \<Rightarrow> bool \<times> int \<Rightarrow> bool" where
  "key_less a b = (if fst a = fst b then snd a < snd b else (\<not> fst a \<and> fst b))"

fun insert_desc :: "(bool \<times> int) \<times> 'a \<Rightarrow> ((bool \<times> int) \<times> 'a) list \<Rightarrow> ((bool \<times> int) \<times> 'a) list" where
  "insert_desc x [] = [x]"
| "insert_desc x (y # ys) =
     (if key_less (fst x) (fst y) then y # insert_desc x ys else x # y # ys)"

definition sort_reverse :: "((bool \<times> int) \<times> 'a) list \<Rightarrow> ((bool \<times> int) \<times> 'a) list" where
  "sort_reverse xs = foldr insert_desc xs []"

definition process_formats :: "format_candidate list \<Rightarrow> py_error + processed_format list" where
  "process_formats formats =
     (case process_loop [] formats of
        Inl err \<Rightarrow> Inl err
      | Inr processed_formats \<Rightarrow>
          let vals = map snd processed_formats;
              video_formats = filter (\<lambda>f. pf_type f = ''video'') vals;
              audio_formats = filter (\<lambda>f. pf_type f \<noteq> ''video'') vals
          in (case priorities video_formats of
                Inl err \<Rightarrow> Inl err
              | Inr ks \<Rightarrow> Inr (map snd (sort_reverse (zip ks video_formats)) @ audio_formats)))"

definition get_video_info_formats :: "format_candidate list \<Rightarrow> processed_format list option" where
  "get_video_info_formats formats =
     (case process_formats formats of Inl err \<Rightarrow> None | Inr fs \<Rightarrow> Some fs)"


definition entry_of :: "format_candidate \<Rightarrow> (string \<times> processed_format) option" where
  "entry_of fmt =
     (case classify fmt of
        None \<Rightarrow> None
      | Some (format_type, quality_label) \<Rightarrow>
          Some (dedup_key format_type quality_label (fmt_ext fmt),
                make_entry fmt format_type quality_label))"

definition cand_key :: "format_candidate \<Rightarrow> string option" where
  "cand_key fmt = map_option fst (entry_of fmt)"

definition cand_score :: "format_candidate \<Rightarrow> rat" where
  "cand_score fmt = current_score (py_or (fmt_filesize fmt) (fmt_filesize_approx fmt)) (fmt_tbr fmt)"

definition entry_key :: "processed_format \<Rightarrow> string" where
  "entry_key e = dedup_key (pf_type e) (pf_quality e) (pf_ext e)"

definition is_video :: "processed_format \<Rightarrow> bool" where
  "is_video e = (pf_type e = ''video'')"

definition first_pos :: "format_candidate list \<Rightarrow> string \<Rightarrow> nat" where
  "first_pos formats k = length (takeWhile (\<lambda>fmt. cand_key fmt \<noteq> Some k) formats)"

definition label_priority :: "processed_format \<Rightarrow> bool \<times> int" where
  "label_priority e =
     (contains ''(with audio)'' (pf_quality e), (case pf_height e of Some h \<Rightarrow> h | None \<Rightarrow> 0))"

definition best_at :: "format_candidate list \<Rightarrow> string \<Rightarrow> nat \<Rightarrow> bool" where
  "best_at formats k i =
     (i < length formats \<and> cand_key (formats ! i) = Some k
      \<and> (\<forall>j < length formats. cand_key (formats ! j) = Some k \<longrightarrow>
            cand_score (formats ! j) \<le> cand_score (formats ! i)
            \<and> (cand_score (formats ! j) = cand_score (formats ! i) \<longrightarrow> i \<le> j)))"

definition loop_inv :: "format_candidate list \<Rightarrow> format_dict \<Rightarrow> bool" where
  "loop_inv formats d =
     (distinct (map fst d)
      \<and> (\<forall>k. k \<in> fst ` set d \<longleftrightarrow> (\<exists>c \<in> set formats. cand_key c = Some k))
      \<and> (\<forall>(k, e) \<in> set d. \<exists>i. best_at formats k i \<and> entry_of (formats ! i) = Some (k, e))
      \<and> sorted_wrt (\<lambda>a b. first_pos formats a < first_pos formats b) (map fst d))"

text \<open>
  A candidate whose score can be read back from its stored entry and whose size in
  megabytes can be computed.
\<close>

definition score_readable :: "format_candidate \<Rightarrow> bool" where
  "score_readable c =
     ((fmt_tbr c \<noteq> None \<or> truthy (py_or (fmt_filesize c) (fmt_filesize_approx c)))
      \<and> \<not> filesize_mb_raises (py_or (fmt_filesize c) (fmt_filesize_approx c)))"

text \<open>Sample candidates and entries, for evaluating the functions on concrete inputs.\<close>

definition example_candidate :: "string \<Rightarrow> int option \<Rightarrow> string \<Rightarrow> string \<Rightarrow> string
    \<Rightarrow> int option \<Rightarrow> rat option \<Rightarrow> rat option \<Rightarrow> format_candidate" where
  "example_candidate fid h e v a fsize rate arate =
     \<lparr> fmt_format_id = fid, fmt_height = h, fmt_width = None, fmt_ext = e,
       fmt_vcodec = v, fmt_acodec = a, fmt_filesize = fsize, fmt_filesize_approx = None,
       fmt_tbr = rate, fmt_abr = arate \<rparr>"

definition example_entry :: "string \<Rightarrow> string \<Rightarrow> string \<Rightarrow> string
    \<Rightarrow> int option \<Rightarrow> rat option \<Rightarrow> int option \<Rightarrow> processed_format" where
  "example_entry fid q e ty fsize rate h =
     \<lparr> pf_format_id = fid, pf_quality = q, pf_ext = e, pf_type = ty,
       pf_filesize = fsize, pf_tbr = rate, pf_height = h, pf_width = None \<rparr>"

definition example_formats :: "format_candidate list" where
  "example_formats =
     [example_candidate ''140'' None ''m4a'' ''none'' ''mp4a'' None (Some 128) (Some 128),
      example_candidate ''137'' (Some 1080) ''mp4'' ''avc1'' ''none'' (Some 5000) None None,
      example_candidate ''251'' None ''webm'' ''none'' ''opus'' None (Some 320) (Some 320),
      example_candidate ''22'' (Some 720) ''mp4'' ''avc1'' ''mp4a'' (Some 3000) None None]"

definition example_processed :: "processed_format list" where
  "example_processed =
     [example_entry ''22'' ''720p (with audio)'' ''mp4'' ''video'' (Some 3000) None (Some 720),
      example_entry ''137'' ''1080p'' ''mp4'' ''video'' (Some 5000) None (Some 1080),
      example_entry ''140'' ''Audio 128kbps'' ''m4a'' ''audio'' None (Some 128) None,
      example_entry ''251'' ''Audio 320kbps'' ''webm'' ''audio'' None (Some 320) None]"

section \<open>URL validation\<close>

text \<open>
  \<^verbatim>\<open>re.match(pattern, url, re.IGNORECASE)\<close> is modelled by backtracking matchers: a
  matcher maps the text to the list of the texts that may remain after it has matched a
  prefix, in the order in which the regular expression engine tries them. The match
  succeeds when some remainder exists: \<^verbatim>\<open>re.match\<close> is anchored at the start only.
\<close>

type_synonym matcher = "string \<Rightarrow> string list"

text \<open>A literal text; under \<^verbatim>\<open>IGNORECASE\<close> a character matches when the lower-case forms agree.\<close>

definition re_lit :: "string \<Rightarrow> matcher" where
  "re_lit p s =
     (if length p \<le> length s \<and> map py_lower_char (take (length p) s) = map py_lower_char p
      then [drop (length p) s] else [])"

text \<open>\<^verbatim>\<open>(?:r)?\<close>, greedy: first with \<open>r\<close>, then without.\<close>

definition re_opt :: "matcher \<Rightarrow> matcher" where
  "re_opt m s = m s @ [s]"

definition re_seq :: "matcher \<Rightarrow> matcher \<Rightarrow> matcher" where
  "re_seq m1 m2 s = concat (map m2 (m1 s))"

text \<open>\<^verbatim>\<open>[class]+\<close>, greedy: the longest run first, at least one character.\<close>

definition re_plus :: "(char \<Rightarrow> bool) \<Rightarrow> matcher" where
  "re_plus P s = map (\<lambda>n. drop n s) (rev [1 ..< Suc (length (takeWhile P s))])"

definition re_match :: "matcher \<Rightarrow> string \<Rightarrow> bool" where
  "re_match m s = (m s \<noteq> [])"

text \<open>\<^verbatim>\<open>[\w-]\<close>\<close>

definition word_or_hyphen :: "char \<Rightarrow> bool" where
  "word_or_hyphen c = (is_word c \<or> c = CHR ''-'')"

text \<open>\<^verbatim>\<open>(?:https?://)?\<close> and \<^verbatim>\<open>(?:www\.)?\<close>\<close>

definition re_scheme :: matcher where
  "re_scheme = re_opt (re_seq (re_lit ''http'') (re_seq (re_opt (re_lit ''s'')) (re_lit ''://'')))"

definition re_www :: matcher where
  "re_www = re_opt (re_lit ''www.'')"

definition youtube_patterns :: "matcher list" where
  "youtube_patterns =
     [re_seq re_scheme (re_seq re_www (re_seq (re_lit ''youtube.com/watch?v='') (re_plus word_or_hyphen))),
      re_seq re_scheme (re_seq re_www (re_seq (re_lit ''youtube.com/shorts/'') (re_plus word_or_hyphen))),
      re_seq re_scheme (re_seq (re_lit ''youtu.be/'') (re_plus word_or_hyphen)),
      re_seq re_scheme (re_seq re_www (re_seq (re_lit ''youtube.com/embed/'') (re_plus word_or_hyphen)))]"

definition is_valid_youtube_url :: "string \<Rightarrow> bool" where
  "is_valid_youtube_url url = list_ex (\<lambda>pattern. re_match pattern url) youtube_patterns"





section \<open>File names\<close>

text \<open>
  The two substitutions of \<^verbatim>\<open>download_video\<close> and \<^verbatim>\<open>get_direct_download_url\<close>:
  \<^verbatim>\<open>re.sub(r'[^\w\s-]', '', title).strip()\<close> and then
  \<^verbatim>\<open>re.sub(r'[-\s]+', '_', safe_title)[:50]\<close>.
\<close>

definition keep_char :: "char \<Rightarrow> bool" where
  "keep_char c = (is_word c \<or> is_space c \<or> c = CHR ''-'')"

definition is_sep :: "char \<Rightarrow> bool" where
  "is_sep c = (c = CHR ''-'' \<or> is_space c)"

text \<open>
  \<^verbatim>\<open>re.sub(r'[-\s]+', '_', s)\<close>: scanning from the left, a match takes the longest run of
  separators at its position and is replaced by one underscore.
\<close>

function sub_runs :: "string \<Rightarrow> string" where
  "sub_runs [] = []"
| "sub_runs (c # cs) =
     (if is_sep c then CHR ''_'' # sub_runs (dropWhile is_sep cs) else c # sub_runs cs)"
  by pat_completeness auto
termination
  by (relation "measure length") (auto simp: less_Suc_eq_le length_dropWhile_le)

definition safe_title :: "string \<Rightarrow> string" where
  "safe_title title = take 50 (sub_runs (strip (filter keep_char title)))"

text \<open>
  The specification's words: the text is cut into its maximal runs of separators and of
  other characters, and every run of separators becomes one underscore.
\<close>

function split_runs :: "(char \<Rightarrow> bool) \<Rightarrow> string \<Rightarrow> string list" where
  "split_runs P [] = []"
| "split_runs P (c # cs) =
     (c # takeWhile (\<lambda>x. P x = P c) cs) # split_runs P (dropWhile (\<lambda>x. P x = P c) cs)"
  by pat_completeness auto
termination
  by (relation "measure (\<lambda>(P, s). length s)") (auto simp: less_Suc_eq_le length_dropWhile_le)

definition replace_runs :: "string \<Rightarrow> string" where
  "replace_runs s = concat (map (\<lambda>r. if is_sep (hd r) then ''_'' else r) (split_runs is_sep s))"

section \<open>Format selection expression\<close>

text \<open>
  The \<^verbatim>\<open>format\<close> option \<^verbatim>\<open>download_video\<close> hands to the extractor. In the extractor's
  syntax the alternatives of an expression are separated by \<^verbatim>\<open>/\<close> and tried from
  the left.
\<close>

definition format_selector :: "string \<Rightarrow> string \<Rightarrow> string" where
  "format_selector download_type format_id =
     (if download_type = ''audio'' then ''bestaudio/best''
      else if format_id \<noteq> []
        then format_id @ ''+bestaudio/best[vcodec!=\"none\"][acodec!=\"none\"]/best[height<=?1080][vcodec!=\"none\"][acodec!=\"none\"]/best''
        else ''best[vcodec!=\"none\"][acodec!=\"none\"]/best[height<=?1080]'')"

fun split_on :: "char \<Rightarrow> string \<Rightarrow> string list" where
  "split_on sep [] = [[]]"
| "split_on sep (c # cs) =
     (if c = sep then [] # split_on sep cs
      else (case split_on sep cs of [] \<Rightarrow> [[c]] | h # t \<Rightarrow> (c # h) # t))"

definition alternatives :: "string \<Rightarrow> string list" where
  "alternatives expr = split_on CHR ''/'' expr"

text \<open>The three alternatives the specification lists.\<close>

definition claimed_alternatives :: "string \<Rightarrow> string list" where
  "claimed_alternatives format_id =
     [format_id @ ''+bestaudio'',
      ''best[height<=?1080][vcodec!=\"none\"][acodec!=\"none\"]'',
      ''best'']"


section \<open>HTTP endpoints\<close>

text \<open>
  The body of a request as \<^verbatim>\<open>request.get_json()\<close> returns it: any JSON value (numbers
  are integers here). The fields of a request may therefore hold values of any JSON
  type.
\<close>

datatype json = JNull | JBool bool | JInt int | JStr string | JList "json list"
  | JDict "(string \<times> json) list"

text \<open>The exceptions the handlers can meet, and \<^verbatim>\<open>str(e)\<close>.\<close>

datatype exn = AttributeError string string

definition quoted :: "string \<Rightarrow> string" where
  "quoted s = [CHR 0x27] @ s @ [CHR 0x27]"

fun exn_str :: "exn \<Rightarrow> string" where
  "exn_str (AttributeError type_name attr) =
     quoted type_name @ '' object has no attribute '' @ quoted attr"

fun py_type_name :: "json \<Rightarrow> string" where
  "py_type_name JNull = ''NoneType''"
| "py_type_name (JBool b) = ''bool''"
| "py_type_name (JInt i) = ''int''"
| "py_type_name (JStr s) = ''str''"
| "py_type_name (JList l) = ''list''"
| "py_type_name (JDict d) = ''dict''"

fun json_truthy :: "json \<Rightarrow> bool" where
  "json_truthy JNull = False"
| "json_truthy (JBool b) = b"
| "json_truthy (JInt i) = (i \<noteq> 0)"
| "json_truthy (JStr s) = (s \<noteq> [])"
| "json_truthy (JList l) = (l \<noteq> [])"
| "json_truthy (JDict d) = (d \<noteq> [])"

text \<open>\<^verbatim>\<open>data.get(key, default)\<close>: only a dictionary has the method.\<close>

fun dict_get :: "json \<Rightarrow> string \<Rightarrow> json \<Rightarrow> exn + json" where
  "dict_get (JDict d) key dflt =
     Inr (case map_of d key of None \<Rightarrow> dflt | Some v \<Rightarrow> v)"
| "dict_get data key dflt = Inl (AttributeError (py_type_name data) ''get'')"

text \<open>\<^verbatim>\<open>value.strip()\<close>: only a string has the method.\<close>

fun str_strip :: "json \<Rightarrow> exn + string" where
  "str_strip (JStr s) = Inr (strip s)"
| "str_strip v = Inl (AttributeError (py_type_name v) ''strip'')"

datatype response = Response (status_code: nat) (payload: "(string \<times> json) list")

subsection \<open>Direct download URL\<close>

text \<open>
  What \<^verbatim>\<open>ydl.extract_info\<close> can do, as far as \<^verbatim>\<open>get_direct_download_url\<close> looks at
  it: raise, return nothing, return one video or return a playlist whose entries may be
  missing. The fields hold the values after \<^verbatim>\<open>.get\<close> with its default; a bit rate is a
  number.
\<close>

record stream_format =
  sf_acodec :: string
  sf_vcodec :: string
  sf_abr :: rat
  sf_url :: "string option"
  sf_filesize :: "int option"
  sf_format_note :: string

record media_info =
  mi_title :: string
  mi_formats :: "stream_format list"

datatype extraction = ExtractRaises string | ExtractNone | ExtractVideo media_info
  | ExtractPlaylist "media_info option list"

datatype direct_result = DirectFailure string | DirectSuccess string string json string

text \<open>The loop that keeps the audio-only format of the highest bit rate, the first on ties.\<close>

fun best_audio :: "stream_format option \<Rightarrow> stream_format list \<Rightarrow> stream_format option" where
  "best_audio requested_format [] = requested_format"
| "best_audio requested_format (fmt # rest) =
     best_audio
       (if sf_acodec fmt \<noteq> ''none'' \<and> sf_vcodec fmt = ''none''
        then (case requested_format of
                None \<Rightarrow> Some fmt
              | Some r \<Rightarrow> if sf_abr fmt > sf_abr r then Some fmt else Some r)
        else requested_format)
       rest"

definition direct_audio :: "media_info option \<Rightarrow> direct_result" where
  "direct_audio video_info =
     (case video_info of
        None \<Rightarrow> DirectFailure ''No video information found''
      | Some vi \<Rightarrow>
          (case best_audio None (mi_formats vi) of
             None \<Rightarrow> DirectFailure ''No suitable audio format found for download''
           | Some requested_format \<Rightarrow>
               (case sf_url requested_format of
                  None \<Rightarrow> DirectFailure ''Unable to get direct download URL''
                | Some download_url \<Rightarrow>
                    if download_url = [] then DirectFailure ''Unable to get direct download URL''
                    else DirectSuccess download_url (safe_title (mi_title vi) @ ''.mp3'')
                           (case sf_filesize requested_format of None \<Rightarrow> JNull | Some n \<Rightarrow> JInt n)
                           (sf_format_note requested_format))))"

definition get_direct_download_url ::
    "(string \<Rightarrow> extraction) \<Rightarrow> string \<Rightarrow> json \<Rightarrow> json \<Rightarrow> direct_result" where
  "get_direct_download_url extract_info url format_id download_type =
     (if download_type = JStr ''video''
      then DirectFailure ''Direct download not supported for videos with audio. Using server download.''
      else (case extract_info url of
              ExtractRaises msg \<Rightarrow> DirectFailure (''Failed to get download URL: '' @ msg)
            | ExtractNone \<Rightarrow> DirectFailure ''Unable to extract video information''
            | ExtractVideo vi \<Rightarrow> direct_audio (Some vi)
            | ExtractPlaylist entries \<Rightarrow>
                direct_audio (case entries of [] \<Rightarrow> None | first # rest \<Rightarrow> first)))"

subsection \<open>The \<^verbatim>\<open>/download\<close> endpoint\<close>

definition download_body :: "(string \<Rightarrow> extraction) \<Rightarrow> json \<Rightarrow> exn + response" where
  "download_body extract_info data =
     (case dict_get data ''url'' (JStr []) of
        Inl e \<Rightarrow> Inl e
      | Inr url_value \<Rightarrow>
     (case str_strip url_value of
        Inl e \<Rightarrow> Inl e
      | Inr url \<Rightarrow>
     (case dict_get data ''format_id'' (JStr []) of
        Inl e \<Rightarrow> Inl e
      | Inr format_id \<Rightarrow>
     (case dict_get data ''download_type'' (JStr ''video'') of
        Inl e \<Rightarrow> Inl e
      | Inr download_type \<Rightarrow>
          if url = [] \<or> \<not> json_truthy format_id
          then Inr (Response 400
                 [(''error'', JStr ''Missing required parameters. Please select a format and try again.'')])
          else if \<not> is_valid_youtube_url url
          then Inr (Response 400 [(''error'', JStr ''Please provide a valid YouTube URL'')])
          else (case get_direct_download_url extract_info url format_id download_type of
                  DirectSuccess download_url filename fsize quality_note \<Rightarrow>
                    Inr (Response 200
                      [(''success'', JBool True), (''download_url'', JStr download_url),
                       (''filename'', JStr filename), (''filesize'', fsize),
                       (''quality'', JStr quality_note)])
                | DirectFailure msg \<Rightarrow> Inr (Response 400 [(''error'', JStr msg)]))))))"

definition download_route :: "(string \<Rightarrow> extraction) \<Rightarrow> json \<Rightarrow> response" where
  "download_route extract_info data =
     (case download_body extract_info data of
        Inl e \<Rightarrow>
          Response 500
            [(''error'', JStr ''An error occurred while preparing the download. Please try again.'')]
      | Inr r \<Rightarrow> r)"

subsection \<open>The \<^verbatim>\<open>/server_download\<close> endpoint\<close>

text \<open>
  \<^verbatim>\<open>downloader.download_video\<close> catches every exception itself and answers a
  dictionary; what it answers depends on the network and the file system, so it is a
  parameter here.
\<close>

datatype download_result = DownloadSuccess string | DownloadFailure string

definition server_download_body ::
    "(string \<Rightarrow> json \<Rightarrow> json \<Rightarrow> download_result) \<Rightarrow> json \<Rightarrow> exn + response" where
  "server_download_body download_video data =
     (if \<not> json_truthy data then Inr (Response 400 [(''error'', JStr ''No data received'')])
      else
     (case dict_get data ''url'' (JStr []) of
        Inl e \<Rightarrow> Inl e
      | Inr url_value \<Rightarrow>
     (case str_strip url_value of
        Inl e \<Rightarrow> Inl e
      | Inr url \<Rightarrow>
     (case dict_get data ''format_id'' (JStr []) of
        Inl e \<Rightarrow> Inl e
      | Inr format_id \<Rightarrow>
     (case dict_get data ''download_type'' (JStr ''video'') of
        Inl e \<Rightarrow> Inl e
      | Inr download_type \<Rightarrow>
          if url = [] \<or> \<not> json_truthy format_id
          then Inr (Response 400 [(''error'', JStr ''Missing required parameters'')])
          else if \<not> is_valid_youtube_url url
          then Inr (Response 400 [(''error'', JStr ''Please provide a valid YouTube URL'')])
          else (case download_video url format_id download_type of
                  DownloadSuccess filename \<Rightarrow>
                    Inr (Response 200
                      [(''success'', JBool True),
                       (''download_url'', JStr (''/download_file/'' @ filename)),
                       (''filename'', JStr filename)])
                | DownloadFailure msg \<Rightarrow> Inr (Response 400 [(''error'', JStr msg)])))))))"

definition server_download ::
    "(string \<Rightarrow> json \<Rightarrow> json \<Rightarrow> download_result) \<Rightarrow> json \<Rightarrow> response" where
  "server_download download_video data =
     (case server_download_body download_video data of
        Inl e \<Rightarrow> Response 500 [(''error'', JStr (''Server error: '' @ exn_str e))]
      | Inr r \<Rightarrow> r)"

text \<open>Sample requests and a sample extraction.\<close>

definition example_request :: "json \<Rightarrow> string \<Rightarrow> json" where
  "example_request url_value mode =
     JDict [(''url'', url_value), (''format_id'', JStr ''18''), (''download_type'', JStr mode)]"

definition example_extract :: "string \<Rightarrow> extraction" where
  "example_extract url =
     ExtractVideo
       \<lparr> mi_title = ''Amazing Video!! (2024)'',
         mi_formats =
           [\<lparr> sf_acodec = ''mp4a'', sf_vcodec = ''none'', sf_abr = 128,
              sf_url = Some ''https://cdn.example/audio'', sf_filesize = Some 4096,
              sf_format_note = ''medium'' \<rparr>] \<rparr>"

section \<open>Properties of the string functions\<close>

lemma str_nat_small: "n < 10 \<Longrightarrow> str_nat n = [digit_char n]"
  by (simp add: str_nat.simps)

lemma str_nat_two: "10 \<le> n \<Longrightarrow> n < 100 \<Longrightarrow> str_nat n = [digit_char (n div 10), digit_char (n mod 10)]"
  by (subst str_nat.simps) (simp add: str_nat_small)

lemma str_nat_nonempty: "str_nat n \<noteq> []"
  by (subst str_nat.simps) simp

lemma length_str_nat_ge2: "10 \<le> n \<Longrightarrow> 2 \<le> length (str_nat n)"
  by (subst str_nat.simps) (simp add: Suc_le_eq str_nat_nonempty)

lemma fmt_02d_two_digits:
  assumes "0 \<le> n" "n < 100"
  shows "fmt_02d n = two_digits n"
proof (cases "n < 10")
  case True
  with assms have "str_int n = [digit_char (nat n)]" "n div 10 = 0" "n mod 10 = n"
    by (simp_all add: str_int_def str_nat_small)
  with assms show ?thesis
    by (simp add: fmt_02d_def two_digits_def digit_char_def)
next
  case False
  with assms have "10 \<le> nat n" "nat n < 100" by simp_all
  then have "str_nat (nat n) = [digit_char (nat n div 10), digit_char (nat n mod 10)]"
    by (rule str_nat_two)
  moreover from assms have "nat n div 10 = nat (n div 10)" "nat n mod 10 = nat (n mod 10)"
    by (simp_all add: nat_div_distrib nat_mod_distrib)
  ultimately show ?thesis
    using assms by (simp add: fmt_02d_def two_digits_def str_int_def)
qed

lemma fmt_02d_large: "100 \<le> n \<Longrightarrow> fmt_02d n = str_int n"
proof -
  assume h: "100 \<le> n"
  then have "2 \<le> length (str_nat (nat n))"
    by (intro length_str_nat_ge2) simp
  with h show ?thesis
    by (simp add: fmt_02d_def str_int_def)
qed

lemma mod_3600_div_60_bounds: "0 \<le> (x::int) mod 3600 div 60 \<and> x mod 3600 div 60 < 100"
proof -
  have "0 \<le> x mod 3600" "x mod 3600 < 3600" by simp_all
  then show ?thesis by linarith
qed

lemma mod_60_bounds: "0 \<le> (x::int) mod 60 \<and> x mod 60 < 100"
proof -
  have "0 \<le> x mod 60" "x mod 60 < 60" by simp_all
  then show ?thesis by linarith
qed

lemma format_duration_nonpos: "d \<le> 0 \<Longrightarrow> format_duration (Some d) = ''Unknown''"
  by (simp add: format_duration_def)

lemma format_duration_mmss:
  assumes "0 < d" "d < 3600"
  shows "format_duration (Some d) = two_digits (d div 60) @ '':'' @ two_digits (d mod 60)"
proof -
  from assms have h0: "d div 3600 = 0" "d mod 3600 = d" by simp_all
  from assms have "0 \<le> d div 60" "d div 60 < 100"
    by linarith+
  then have "fmt_02d (d div 60) = two_digits (d div 60)"
    by (rule fmt_02d_two_digits)
  moreover have "fmt_02d (d mod 60) = two_digits (d mod 60)"
    using mod_60_bounds by (intro fmt_02d_two_digits) simp_all
  ultimately show ?thesis
    using assms h0 by (simp add: format_duration_def Let_def)
qed

lemma format_duration_hhmmss:
  assumes "3600 \<le> d"
  shows "format_duration (Some d) =
       (if d div 3600 < 100 then two_digits (d div 3600) else str_int (d div 3600))
       @ '':'' @ two_digits (d mod 3600 div 60) @ '':'' @ two_digits (d mod 60)"
proof -
  from assms have hpos: "0 < d div 3600"
    by linarith
  have hh: "fmt_02d (d div 3600) =
      (if d div 3600 < 100 then two_digits (d div 3600) else str_int (d div 3600))"
    using hpos by (simp add: fmt_02d_two_digits fmt_02d_large)
  have "fmt_02d (d mod 3600 div 60) = two_digits (d mod 3600 div 60)"
    using mod_3600_div_60_bounds by (intro fmt_02d_two_digits) simp_all
  moreover have "fmt_02d (d mod 60) = two_digits (d mod 60)"
    using mod_60_bounds by (intro fmt_02d_two_digits) simp_all
  ultimately show ?thesis
    using assms hpos hh by (simp add: format_duration_def Let_def)
qed

section \<open>Claims\<close>

text \<open>
  C5. \<^verbatim>\<open>format_duration\<close> answers \<^verbatim>\<open>Unknown\<close> for a missing, zero or negative
  number of seconds; for \<open>0 < d < 3600\<close> it answers the minutes and the seconds, each as
  a two-digit zero-padded field, joined by a colon; for \<open>d \<ge> 3600\<close> it answers hours,
  minutes and seconds, where the hours take two zero-padded digits below 100 and their
  plain decimal digits from 100 on. 45 gives \<^verbatim>\<open>00:45\<close> and 3725 gives \<^verbatim>\<open>01:02:05\<close>.
\<close>

theorem format_duration_cases:
  "format_duration None = ''Unknown''
   \<and> (d \<le> 0 \<longrightarrow> format_duration (Some d) = ''Unknown'')
   \<and> (0 < d \<and> d < 3600 \<longrightarrow>
        format_duration (Some d) = two_digits (d div 60) @ '':'' @ two_digits (d mod 60))
   \<and> (3600 \<le> d \<longrightarrow>
        format_duration (Some d) =
          (if d div 3600 < 100 then two_digits (d div 3600) else str_int (d div 3600))
          @ '':'' @ two_digits (d mod 3600 div 60) @ '':'' @ two_digits (d mod 60))
   \<and> format_duration (Some 45) = ''00:45''
   \<and> format_duration (Some 3725) = ''01:02:05''"
proof -
  have "format_duration None = ''Unknown''"
    by (simp add: format_duration_def)
  moreover have "format_duration (Some 45) = ''00:45''"
    by (simp add: format_duration_def fmt_02d_def str_int_def str_nat.simps digit_char_def)
  moreover have "format_duration (Some 3725) = ''01:02:05''"
    by (simp add: format_duration_def fmt_02d_def str_int_def str_nat.simps digit_char_def)
  ultimately show ?thesis
    using format_duration_nonpos [of d] format_duration_mmss [of d]
      format_duration_hhmmss [of d]
    by blast
qed

theorem format_duration_cases_witness:
  "format_duration (Some 0) = ''Unknown''
   \<and> format_duration (Some (- 7)) = ''Unknown''
   \<and> format_duration (Some 754) = ''12:34''
   \<and> format_duration (Some 36610) = ''10:10:10''
   \<and> format_duration (Some 360000) = ''100:00:00''"
  using format_duration_cases [of 0] format_duration_cases [of "- 7"]
    format_duration_cases [of 754] format_duration_cases [of 36610]
    format_duration_cases [of 360000]
  by (simp add: two_digits_def digit_char_def str_int_def str_nat.simps)

lemma digit_char_is_digit: "d < 10 \<Longrightarrow> is_digit (digit_char d)"
  by (simp add: is_digit_def digit_char_def nth_Cons' )

lemma digit_val_digit_char: "d < 10 \<Longrightarrow> digit_val (digit_char d) = d"
proof -
  assume "d < 10"
  then have "d \<in> {0,1,2,3,4,5,6,7,8,9}" by auto
  then show ?thesis
    by (auto simp: digit_val_def digit_char_def)
qed

lemma str_nat_digits: "list_all is_digit (str_nat n)"
proof (induction n rule: str_nat.induct)
  case (1 n)
  show ?case
  proof (cases "n < 10")
    case True
    then show ?thesis by (simp add: str_nat_small digit_char_is_digit)
  next
    case False
    with 1 have "list_all is_digit (str_nat (n div 10))" by simp
    moreover have "is_digit (digit_char (n mod 10))" by (simp add: digit_char_is_digit)
    ultimately show ?thesis using False by (subst str_nat.simps) simp
  qed
qed

lemma foldl_digits_str_nat:
  "foldl (\<lambda>a c. 10 * a + digit_val c) 0 (str_nat n) = n"
proof (induction n rule: str_nat.induct)
  case (1 n)
  show ?case
  proof (cases "n < 10")
    case True
    then show ?thesis by (simp add: str_nat_small digit_val_digit_char)
  next
    case False
    with 1 have "foldl (\<lambda>a c. 10 * a + digit_val c) 0 (str_nat (n div 10)) = n div 10" by simp
    then show ?thesis using False
      by (subst str_nat.simps) (simp add: digit_val_digit_char)
  qed
qed

lemma is_digit_cases: "is_digit c \<Longrightarrow> c \<in> set ''0123456789''"
  by (simp add: is_digit_def)

lemma is_digit_not_space: "is_digit c \<Longrightarrow> \<not> is_space c"
  by (auto simp: is_digit_def is_space_def)

lemma is_digit_not_special:
  "is_digit c \<Longrightarrow> c \<noteq> CHR ''_'' \<and> c \<noteq> CHR ''-'' \<and> c \<noteq> CHR ''+'' \<and> c \<noteq> CHR ''p'' \<and> c \<noteq> CHR ''('' \<and> c \<noteq> CHR ''k''"
  by (auto simp: is_digit_def)

lemma str_nat_hd_digit: "is_digit (hd (str_nat n))"
  using str_nat_digits [of n] str_nat_nonempty [of n]
  by (cases "str_nat n") simp_all

lemma str_nat_last_digit: "is_digit (last (str_nat n))"
  using str_nat_digits [of n] str_nat_nonempty [of n]
  by (simp add: list_all_iff)

lemma digits_no_double_underscore:
  "list_all is_digit s \<Longrightarrow> \<not> contains ''__'' s"
  by (induction s) (auto dest: is_digit_not_special)

lemma digits_filter_underscore:
  "list_all is_digit s \<Longrightarrow> filter (\<lambda>c. c \<noteq> CHR ''_'') s = s"
  by (induction s) (auto dest: is_digit_not_special)

lemma strip_digits:
  assumes "list_all is_digit s"
  shows "strip s = s"
proof (cases "s = []")
  case True
  then show ?thesis by (simp add: strip_def)
next
  case False
  with assms have "\<not> is_space (hd s)" "\<not> is_space (last s)"
    by (auto simp: list_all_iff dest: is_digit_not_space)
  with False have "dropWhile is_space s = s" "dropWhile is_space (rev s) = rev s"
    by (simp_all add: dropWhile_eq_self_iff hd_rev)
  then show ?thesis by (simp add: strip_def)
qed

lemma py_int_of_str_str_nat: "py_int_of_str (str_nat n) = Inr (int n)"
proof -
  let ?s = "str_nat n"
  have d: "list_all is_digit ?s" by (rule str_nat_digits)
  have ne: "?s \<noteq> []" by (rule str_nat_nonempty)
  have hd: "is_digit (hd ?s)" by (rule str_nat_hd_digit)
  then have nosign: "hd ?s \<noteq> CHR ''-''" "hd ?s \<noteq> CHR ''+''"
    by (auto dest: is_digit_not_special)
  have valid: "valid_int_body ?s"
    using d ne hd str_nat_last_digit [of n] digits_no_double_underscore [OF d]
    by (auto simp: valid_int_body_def list_all_iff)
  have val: "digits_value ?s = n"
    by (simp add: digits_value_def digits_filter_underscore [OF d] foldl_digits_str_nat)
  show ?thesis
    using nosign valid val by (simp add: py_int_of_str_def strip_digits [OF d])
qed

lemma py_int_of_str_str_int: "0 \<le> h \<Longrightarrow> py_int_of_str (str_int h) = Inr h"
  by (simp add: str_int_def py_int_of_str_str_nat)

lemma takeWhile_digits_p:
  "list_all is_digit s \<Longrightarrow> takeWhile (\<lambda>c. c \<noteq> CHR ''p'') (s @ CHR ''p'' # r) = s"
  by (induction s) (auto dest: is_digit_not_special)

lemma startswith_append: "startswith (p @ r) p"
  by (induction p) simp_all

lemma contains_append_left: "contains p s \<Longrightarrow> contains p (a @ s)"
  by (induction a) simp_all

lemma contains_self_append: "contains p (p @ r)"
proof (cases "p @ r")
  case Nil
  then show ?thesis by simp
next
  case (Cons a l)
  with startswith_append [of p r] have "startswith (a # l) p" by simp
  with Cons show ?thesis by simp
qed

lemma contains_mid: "contains p (a @ p @ r)"
  by (rule contains_append_left) (rule contains_self_append)

lemma startswith_set: "startswith s p \<Longrightarrow> set p \<subseteq> set s"
  by (induction s p rule: startswith.induct) auto

lemma contains_set: "contains p s \<Longrightarrow> set p \<subseteq> set s"
proof (induction s)
  case Nil
  then show ?case by simp
next
  case (Cons a s)
  from Cons.prems have "startswith (a # s) p \<or> contains p s" by simp
  then show ?case
  proof
    assume "startswith (a # s) p"
    then show ?thesis by (rule startswith_set)
  next
    assume "contains p s"
    then have "set p \<subseteq> set s" by (rule Cons.IH)
    then show ?thesis by auto
  qed
qed

lemma not_contains_with_audio_digits_p:
  "list_all is_digit s \<Longrightarrow> \<not> contains ''(with audio)'' (s @ ''p'')"
proof
  assume d: "list_all is_digit s" and c: "contains ''(with audio)'' (s @ ''p'')"
  from contains_set [OF c] have "CHR ''('' \<in> set (s @ ''p'')" by auto
  with d show False by (auto simp: list_all_iff dest: is_digit_not_special)
qed

lemma str_int_digits: "0 \<le> h \<Longrightarrow> list_all is_digit (str_int h)"
  by (simp add: str_int_def str_nat_digits)

lemma classify_type: "classify c = Some (ty, q) \<Longrightarrow> ty = ''video'' \<or> ty = ''audio''"
  by (auto simp: classify_def Let_def split: if_splits)

lemma classify_format_id:
  "classify c = Some (ty, q) \<Longrightarrow> fmt_format_id c \<noteq> [] \<and> \<not> startswith (fmt_format_id c) ''sb''"
  by (auto simp: classify_def Let_def split: if_splits)

lemma classify_video:
  assumes "classify c = Some (''video'', q)"
  shows "\<exists>h. fmt_height c = Some h \<and> 144 \<le> h
           \<and> (q = str_int h @ ''p (with audio)'' \<or> q = str_int h @ ''p'')"
  using assms
  by (auto simp: classify_def Let_def height_ok_def fmt_opt_int_def split: if_splits option.splits)

lemma classify_audio:
  assumes "classify c = Some (''audio'', q)"
  shows "q = audio_quality (fmt_abr c) (fmt_ext c) \<and> fmt_vcodec c = ''none'' \<and> fmt_acodec c \<noteq> ''none''"
  using assms
  by (auto simp: classify_def Let_def split: if_splits)

lemma format_priority_video:
  assumes "classify c = Some (''video'', q)"
  shows "format_priority (make_entry c ''video'' q) = Inr (label_priority (make_entry c ''video'' q))"
proof -
  from classify_video [OF assms] obtain h where
    h: "fmt_height c = Some h" "144 \<le> h"
    and q: "q = str_int h @ ''p (with audio)'' \<or> q = str_int h @ ''p''"
    by blast
  from h have d: "list_all is_digit (str_int h)" by (simp add: str_int_digits)
  from h have rt: "py_int_of_str (str_int h) = Inr h" by (simp add: py_int_of_str_str_int)
  from q show ?thesis
  proof
    assume q1: "q = str_int h @ ''p (with audio)''"
    have "contains ''(with audio)'' ((str_int h @ ''p '') @ ''(with audio)'' @ [])"
      by (rule contains_mid)
    then have "contains ''(with audio)'' q" using q1 by simp
    moreover have "takeWhile (\<lambda>c. c \<noteq> CHR ''p'') q = str_int h"
      using takeWhile_digits_p [OF d, of "'' (with audio)''"] q1 by simp
    ultimately show ?thesis
      using q1 h rt by (simp add: format_priority_def label_priority_def make_entry_def)
  next
    assume q2: "q = str_int h @ ''p''"
    have "\<not> contains ''(with audio)'' q"
      using not_contains_with_audio_digits_p [OF d] q2 by simp
    moreover have "takeWhile (\<lambda>c. c \<noteq> CHR ''p'') q = str_int h"
      using takeWhile_digits_p [OF d, of "[]"] q2 by simp
    ultimately show ?thesis
      using q2 h rt by (simp add: format_priority_def label_priority_def make_entry_def)
  qed
qed

lemma dict_set_keys:
  "map fst (dict_set k v d) = (if k \<in> fst ` set d then map fst d else map fst d @ [k])"
  by (induction d) (auto split: if_splits)

lemma dict_set_new: "k \<notin> fst ` set d \<Longrightarrow> dict_set k v d = d @ [(k, v)]"
  by (induction d) auto

lemma dict_set_distinct: "distinct (map fst d) \<Longrightarrow> distinct (map fst (dict_set k v d))"
  by (simp add: dict_set_keys)

lemma dict_set_mem:
  "distinct (map fst d) \<Longrightarrow> (k', v') \<in> set (dict_set k v d)
     \<Longrightarrow> (k' = k \<and> v' = v) \<or> (k' \<noteq> k \<and> (k', v') \<in> set d)"
  by (induction d) (force split: if_splits)+

lemma map_of_None_keys: "map_of d k = None \<longleftrightarrow> k \<notin> fst ` set d"
  by (simp add: map_of_eq_None_iff)

lemma process_format_entry_of:
  "process_format d c =
     (case entry_of c of
        None \<Rightarrow> Inr d
      | Some (k, e) \<Rightarrow>
          (case map_of d k of
             None \<Rightarrow> store_format k e (pf_filesize e) d
           | Some existing \<Rightarrow>
               (case existing_score existing of
                  Inl err \<Rightarrow> Inl err
                | Inr old_score \<Rightarrow>
                    if cand_score c > old_score then store_format k e (pf_filesize e) d
                    else Inr d)))"
  by (simp add: process_format_def entry_of_def cand_score_def Let_def make_entry_def
      split: option.splits prod.splits sum.splits)

lemma store_format_Inr:
  "store_format k e fsize d = Inr d' \<Longrightarrow> d' = dict_set k e d \<and> \<not> filesize_mb_raises fsize"
  by (simp add: store_format_def split: if_splits)

lemma process_format_cases:
  assumes "process_format d c = Inr d'"
  shows "(entry_of c = None \<and> d' = d)
       \<or> (\<exists>k e. entry_of c = Some (k, e) \<and> k \<notin> fst ` set d \<and> d' = d @ [(k, e)])
       \<or> (\<exists>k e ex old. entry_of c = Some (k, e) \<and> map_of d k = Some ex
             \<and> existing_score ex = Inr old
             \<and> d' = (if cand_score c > old then dict_set k e d else d))"
  using assms
  by (auto simp: process_format_entry_of map_of_None_keys dict_set_new
      dest!: store_format_Inr
      split: option.splits prod.splits sum.splits if_splits)

lemma existing_score_entry:
  assumes "entry_of c = Some (k, e)" "existing_score e = Inr s"
  shows "s = cand_score c"
  using assms
  by (auto simp: entry_of_def make_entry_def existing_score_def cand_score_def current_score_def
      scaled_tbr_def stored_tbr_times_1000_def split: option.splits if_splits)

lemma existing_score_known_tbr:
  assumes "entry_of c = Some (k, e)" "fmt_tbr c \<noteq> None"
  shows "existing_score e = Inr (cand_score c)"
  using assms
  by (auto simp: entry_of_def make_entry_def existing_score_def cand_score_def current_score_def
      scaled_tbr_def stored_tbr_times_1000_def split: option.splits if_splits)

lemma process_loop_snoc:
  "process_loop d (fs @ [c]) =
     (case process_loop d fs of Inl err \<Rightarrow> Inl err | Inr d' \<Rightarrow> process_format d' c)"
  by (induction fs arbitrary: d) (auto split: sum.splits)

lemma best_at_keep_other:
  "best_at fs k i \<Longrightarrow> cand_key c \<noteq> Some k \<Longrightarrow> best_at (fs @ [c]) k i"
  by (auto simp: best_at_def nth_append less_Suc_eq)

lemma best_at_keep_same:
  "best_at fs k i \<Longrightarrow> cand_score c \<le> cand_score (fs ! i) \<Longrightarrow> best_at (fs @ [c]) k i"
  by (auto simp: best_at_def nth_append less_Suc_eq)

lemma best_at_replace:
  "best_at fs k i \<Longrightarrow> cand_key c = Some k \<Longrightarrow> cand_score (fs ! i) < cand_score c
     \<Longrightarrow> best_at (fs @ [c]) k (length fs)"
  by (fastforce simp: best_at_def nth_append less_Suc_eq)

lemma best_at_new:
  "\<forall>c' \<in> set fs. cand_key c' \<noteq> Some k \<Longrightarrow> cand_key c = Some k
     \<Longrightarrow> best_at (fs @ [c]) k (length fs)"
  by (auto simp: best_at_def nth_append less_Suc_eq)

lemma first_pos_present:
  assumes "\<exists>c \<in> set fs. cand_key c = Some k"
  shows "first_pos (fs @ gs) k = first_pos fs k" and "first_pos fs k < length fs"
proof -
  from assms obtain c where c: "c \<in> set fs" "\<not> cand_key c \<noteq> Some k" by auto
  then show "first_pos (fs @ gs) k = first_pos fs k"
    by (simp add: first_pos_def takeWhile_append1)
  have "takeWhile (\<lambda>fmt. cand_key fmt \<noteq> Some k) fs \<noteq> fs"
    using c by (auto simp: takeWhile_eq_all_conv)
  moreover have "length (takeWhile (\<lambda>fmt. cand_key fmt \<noteq> Some k) fs) \<le> length fs"
    by (rule length_takeWhile_le)
  ultimately show "first_pos fs k < length fs"
    unfolding first_pos_def
    by (metis le_neq_implies_less takeWhile_eq_take take_all_iff order_refl)
qed

lemma first_pos_new:
  assumes "\<forall>c \<in> set fs. cand_key c \<noteq> Some k" "cand_key c = Some k"
  shows "first_pos (fs @ [c]) k = length fs"
  using assms by (simp add: first_pos_def takeWhile_append2)

lemma best_at_index: "best_at fs k i \<Longrightarrow> i < length fs"
  by (simp add: best_at_def)

lemma cand_key_entry_of: "entry_of c = Some (k, e) \<Longrightarrow> cand_key c = Some k"
  by (simp add: cand_key_def)

lemma cand_key_None: "entry_of c = None \<Longrightarrow> cand_key c = None"
  by (simp add: cand_key_def)

lemma loop_inv_empty: "loop_inv [] []"
  by (simp add: loop_inv_def)

lemma loop_inv_skip:
  assumes inv: "loop_inv fs d" and none: "entry_of c = None"
  shows "loop_inv (fs @ [c]) d"
proof -
  from none have ck: "cand_key c = None" by (rule cand_key_None)
  from inv have dist: "distinct (map fst d)"
    and keys: "\<And>k. k \<in> fst ` set d \<longleftrightarrow> (\<exists>c \<in> set fs. cand_key c = Some k)"
    and best: "\<And>k e. (k, e) \<in> set d \<Longrightarrow> \<exists>i. best_at fs k i \<and> entry_of (fs ! i) = Some (k, e)"
    and srt: "sorted_wrt (\<lambda>a b. first_pos fs a < first_pos fs b) (map fst d)"
    by (auto simp: loop_inv_def)
  have keys': "k \<in> fst ` set d \<longleftrightarrow> (\<exists>c' \<in> set (fs @ [c]). cand_key c' = Some k)" for k
    using keys [of k] ck by auto
  have best': "\<exists>i. best_at (fs @ [c]) k i \<and> entry_of ((fs @ [c]) ! i) = Some (k, e)"
    if "(k, e) \<in> set d" for k e
  proof -
    from best [OF that] obtain i where i: "best_at fs k i" "entry_of (fs ! i) = Some (k, e)"
      by blast
    from i(1) ck have "best_at (fs @ [c]) k i" by (intro best_at_keep_other) simp_all
    moreover from i have "entry_of ((fs @ [c]) ! i) = Some (k, e)"
      by (simp add: nth_append best_at_index)
    ultimately show ?thesis by blast
  qed
  have srt': "sorted_wrt (\<lambda>a b. first_pos (fs @ [c]) a < first_pos (fs @ [c]) b) (map fst d)"
  proof (rule sorted_wrt_mono_rel [OF _ srt])
    fix a b assume "a \<in> set (map fst d)" "b \<in> set (map fst d)" "first_pos fs a < first_pos fs b"
    then show "first_pos (fs @ [c]) a < first_pos (fs @ [c]) b"
      using keys [of a] keys [of b] by (simp add: first_pos_present(1))
  qed
  show ?thesis
    unfolding loop_inv_def using dist keys' best' srt' by blast
qed

lemma loop_inv_new:
  assumes inv: "loop_inv fs d" and ent: "entry_of c = Some (k, e)" and new: "k \<notin> fst ` set d"
  shows "loop_inv (fs @ [c]) (d @ [(k, e)])"
proof -
  from ent have ck: "cand_key c = Some k" by (rule cand_key_entry_of)
  from inv have dist: "distinct (map fst d)"
    and keys: "\<And>k. k \<in> fst ` set d \<longleftrightarrow> (\<exists>c \<in> set fs. cand_key c = Some k)"
    and best: "\<And>k e. (k, e) \<in> set d \<Longrightarrow> \<exists>i. best_at fs k i \<and> entry_of (fs ! i) = Some (k, e)"
    and srt: "sorted_wrt (\<lambda>a b. first_pos fs a < first_pos fs b) (map fst d)"
    by (auto simp: loop_inv_def)
  from new keys [of k] have absent: "\<forall>c' \<in> set fs. cand_key c' \<noteq> Some k" by blast
  have dist': "distinct (map fst (d @ [(k, e)]))"
    using dist new by auto
  have keys': "k' \<in> fst ` set (d @ [(k, e)]) \<longleftrightarrow> (\<exists>c' \<in> set (fs @ [c]). cand_key c' = Some k')" for k'
    using keys [of k'] ck by auto
  have best': "\<exists>i. best_at (fs @ [c]) k' i \<and> entry_of ((fs @ [c]) ! i) = Some (k', e')"
    if mem: "(k', e') \<in> set (d @ [(k, e)])" for k' e'
  proof (cases "(k', e') \<in> set d")
    case True
    with new have ne: "k' \<noteq> k" by force
    from best [OF True] obtain i where i: "best_at fs k' i" "entry_of (fs ! i) = Some (k', e')"
      by blast
    from i(1) ck ne have "best_at (fs @ [c]) k' i" by (intro best_at_keep_other) simp_all
    moreover from i have "entry_of ((fs @ [c]) ! i) = Some (k', e')"
      by (simp add: nth_append best_at_index)
    ultimately show ?thesis by blast
  next
    case False
    with mem have eq: "k' = k" "e' = e" by auto
    have "best_at (fs @ [c]) k (length fs)" using absent ck by (rule best_at_new)
    moreover have "entry_of ((fs @ [c]) ! length fs) = Some (k, e)" using ent by simp
    ultimately show ?thesis using eq by blast
  qed
  have old_pos: "first_pos (fs @ [c]) a = first_pos fs a \<and> first_pos fs a < length fs"
    if "a \<in> set (map fst d)" for a
    using that keys [of a] first_pos_present(1) [of fs a "[c]"] first_pos_present(2) [of fs a]
    by auto
  have new_pos: "first_pos (fs @ [c]) k = length fs"
    using absent ck by (rule first_pos_new)
  have "sorted_wrt (\<lambda>a b. first_pos (fs @ [c]) a < first_pos (fs @ [c]) b) (map fst d)"
  proof (rule sorted_wrt_mono_rel [OF _ srt])
    fix a b assume "a \<in> set (map fst d)" "b \<in> set (map fst d)" "first_pos fs a < first_pos fs b"
    then show "first_pos (fs @ [c]) a < first_pos (fs @ [c]) b"
      using old_pos by simp
  qed
  then have srt': "sorted_wrt (\<lambda>a b. first_pos (fs @ [c]) a < first_pos (fs @ [c]) b)
      (map fst (d @ [(k, e)]))"
    using old_pos new_pos by (simp add: sorted_wrt_append)
  show ?thesis
    unfolding loop_inv_def using dist' keys' best' srt' by blast
qed

lemma loop_inv_existing:
  assumes inv: "loop_inv fs d" and ent: "entry_of c = Some (k, e)"
    and ex: "map_of d k = Some ex" and old: "existing_score ex = Inr old"
  shows "loop_inv (fs @ [c]) (if cand_score c > old then dict_set k e d else d)"
proof -
  from ent have ck: "cand_key c = Some k" by (rule cand_key_entry_of)
  from inv have dist: "distinct (map fst d)"
    and keys: "\<And>k. k \<in> fst ` set d \<longleftrightarrow> (\<exists>c \<in> set fs. cand_key c = Some k)"
    and best: "\<And>k e. (k, e) \<in> set d \<Longrightarrow> \<exists>i. best_at fs k i \<and> entry_of (fs ! i) = Some (k, e)"
    and srt: "sorted_wrt (\<lambda>a b. first_pos fs a < first_pos fs b) (map fst d)"
    by (auto simp: loop_inv_def)
  from ex have exmem: "(k, ex) \<in> set d" by (rule map_of_SomeD)
  then have kin: "k \<in> fst ` set d" by force
  from best [OF exmem] obtain i where i: "best_at fs k i" "entry_of (fs ! i) = Some (k, ex)"
    by blast
  from existing_score_entry [OF i(2) old] have old_eq: "old = cand_score (fs ! i)" .
  let ?d' = "if cand_score c > old then dict_set k e d else d"
  have keys_same: "map fst ?d' = map fst d"
    using kin by (simp add: dict_set_keys)
  have dist': "distinct (map fst ?d')"
    using dist keys_same by simp
  have keys': "k' \<in> fst ` set ?d' \<longleftrightarrow> (\<exists>c' \<in> set (fs @ [c]). cand_key c' = Some k')" for k'
  proof -
    have "fst ` set ?d' = fst ` set d"
      using keys_same by (metis set_map)
    then show ?thesis using keys [of k'] keys [of k] kin ck by auto
  qed
  have keep_other: "\<exists>j. best_at (fs @ [c]) k' j \<and> entry_of ((fs @ [c]) ! j) = Some (k', e')"
    if "(k', e') \<in> set d" "k' \<noteq> k" for k' e'
  proof -
    from best [OF that(1)] obtain j where j: "best_at fs k' j" "entry_of (fs ! j) = Some (k', e')"
      by blast
    from j(1) ck that(2) have "best_at (fs @ [c]) k' j" by (intro best_at_keep_other) simp_all
    moreover from j have "entry_of ((fs @ [c]) ! j) = Some (k', e')"
      by (simp add: nth_append best_at_index)
    ultimately show ?thesis by blast
  qed
  have best': "\<exists>j. best_at (fs @ [c]) k' j \<and> entry_of ((fs @ [c]) ! j) = Some (k', e')"
    if mem: "(k', e') \<in> set ?d'" for k' e'
  proof (cases "cand_score c > old")
    case True
    with mem have "(k', e') \<in> set (dict_set k e d)" by simp
    from dict_set_mem [OF dist this] show ?thesis
    proof
      assume eq: "k' = k \<and> e' = e"
      from True old_eq have "cand_score (fs ! i) < cand_score c" by simp
      with i(1) ck have "best_at (fs @ [c]) k (length fs)" by (intro best_at_replace)
      moreover have "entry_of ((fs @ [c]) ! length fs) = Some (k, e)" using ent by simp
      ultimately show ?thesis using eq by blast
    next
      assume "k' \<noteq> k \<and> (k', e') \<in> set d"
      then show ?thesis using keep_other by blast
    qed
  next
    case False
    with mem have m: "(k', e') \<in> set d" by simp
    show ?thesis
    proof (cases "k' = k")
      case True
      with m dist have "map_of d k = Some e'" by (simp add: map_of_is_SomeI)
      with ex have e'_eq: "e' = ex" by simp
      from False old_eq have "cand_score c \<le> cand_score (fs ! i)" by simp
      with i(1) have "best_at (fs @ [c]) k i" by (intro best_at_keep_same)
      moreover from i have "entry_of ((fs @ [c]) ! i) = Some (k, ex)"
        by (simp add: nth_append best_at_index)
      ultimately show ?thesis using True e'_eq by blast
    next
      case False
      with m show ?thesis using keep_other by blast
    qed
  qed
  have "sorted_wrt (\<lambda>a b. first_pos (fs @ [c]) a < first_pos (fs @ [c]) b) (map fst d)"
  proof (rule sorted_wrt_mono_rel [OF _ srt])
    fix a b assume "a \<in> set (map fst d)" "b \<in> set (map fst d)" "first_pos fs a < first_pos fs b"
    then show "first_pos (fs @ [c]) a < first_pos (fs @ [c]) b"
      using keys [of a] keys [of b] by (simp add: first_pos_present(1))
  qed
  then have srt': "sorted_wrt (\<lambda>a b. first_pos (fs @ [c]) a < first_pos (fs @ [c]) b) (map fst ?d')"
    using keys_same by simp
  show ?thesis
    unfolding loop_inv_def using dist' keys' best' srt' by blast
qed

lemma loop_inv_step:
  assumes "loop_inv fs d" "process_format d c = Inr d'"
  shows "loop_inv (fs @ [c]) d'"
  using process_format_cases [OF assms(2)] assms(1)
  by (auto intro: loop_inv_skip loop_inv_new loop_inv_existing)

lemma process_loop_inv: "process_loop [] fs = Inr d \<Longrightarrow> loop_inv fs d"
proof (induction fs arbitrary: d rule: rev_induct)
  case Nil
  then show ?case by (simp add: loop_inv_empty)
next
  case (snoc c fs)
  from snoc.prems obtain d0 where d0: "process_loop [] fs = Inr d0" "process_format d0 c = Inr d"
    by (auto simp: process_loop_snoc split: sum.splits)
  from snoc.IH [OF d0(1)] d0(2) show ?case by (rule loop_inv_step)
qed

lemma key_less_irrefl: "\<not> key_less a a"
  by (simp add: key_less_def)

lemma key_less_total: "\<not> key_less a b \<Longrightarrow> key_less b a \<or> a = b"
  by (cases a; cases b) (auto simp: key_less_def split: if_splits)

lemma key_less_trans_le: "key_less z y \<Longrightarrow> \<not> key_less x y \<Longrightarrow> key_less z x"
  by (cases x; cases y; cases z) (auto simp: key_less_def split: if_splits)

lemma set_insert_desc: "set (insert_desc x ys) = insert x (set ys)"
  by (induction ys) auto

lemma length_insert_desc: "length (insert_desc x ys) = Suc (length ys)"
  by (induction ys) auto

lemma set_sort_reverse: "set (sort_reverse xs) = set xs"
  by (induction xs) (simp_all add: sort_reverse_def set_insert_desc)

lemma length_sort_reverse: "length (sort_reverse xs) = length xs"
  by (induction xs) (simp_all add: sort_reverse_def length_insert_desc)

lemma sorted_insert_desc:
  assumes "sorted_wrt (\<lambda>a b. key_less (fst b) (fst a) \<or> (fst a = fst b \<and> Q a b)) ys"
    and "\<forall>y \<in> set ys. Q x y"
  shows "sorted_wrt (\<lambda>a b. key_less (fst b) (fst a) \<or> (fst a = fst b \<and> Q a b)) (insert_desc x ys)"
  using assms
proof (induction ys)
  case Nil
  then show ?case by simp
next
  case (Cons y ys)
  let ?R = "\<lambda>a b. key_less (fst b) (fst a) \<or> (fst a = fst b \<and> Q a b)"
  from Cons.prems have srt: "sorted_wrt ?R ys" and yrel: "\<forall>z \<in> set ys. ?R y z"
    and qx: "Q x y" "\<forall>z \<in> set ys. Q x z"
    by simp_all
  show ?case
  proof (cases "key_less (fst x) (fst y)")
    case True
    have "sorted_wrt ?R (insert_desc x ys)"
      using Cons.IH [OF srt qx(2)] .
    moreover have "\<forall>z \<in> set (insert_desc x ys). ?R y z"
      using yrel True by (simp add: set_insert_desc)
    ultimately show ?thesis using True by simp
  next
    case False
    have xy: "?R x y"
      using key_less_total [OF False] qx(1) by auto
    have "?R x z" if z: "z \<in> set ys" for z
    proof -
      from yrel z have "key_less (fst z) (fst y) \<or> (fst y = fst z \<and> Q y z)" by blast
      then show ?thesis
      proof
        assume "key_less (fst z) (fst y)"
        then have "key_less (fst z) (fst x)" using False by (rule key_less_trans_le)
        then show ?thesis by simp
      next
        assume "fst y = fst z \<and> Q y z"
        then have "\<not> key_less (fst x) (fst z)" using False by simp
        from key_less_total [OF this] qx(2) z show ?thesis by auto
      qed
    qed
    with xy Cons.prems(1) False show ?thesis by simp
  qed
qed

lemma sorted_sort_reverse:
  assumes "sorted_wrt Q xs"
  shows "sorted_wrt (\<lambda>a b. key_less (fst b) (fst a) \<or> (fst a = fst b \<and> Q a b)) (sort_reverse xs)"
  using assms
proof (induction xs)
  case Nil
  then show ?case by (simp add: sort_reverse_def)
next
  case (Cons x xs)
  from Cons.prems have "sorted_wrt Q xs" "\<forall>y \<in> set xs. Q x y" by simp_all
  then have "sorted_wrt (\<lambda>a b. key_less (fst b) (fst a) \<or> (fst a = fst b \<and> Q a b))
      (insert_desc x (sort_reverse xs))"
    by (intro sorted_insert_desc Cons.IH) (simp_all add: set_sort_reverse)
  then show ?case by (simp add: sort_reverse_def)
qed

lemma priorities_all:
  "\<forall>e \<in> set es. format_priority e = Inr (f e) \<Longrightarrow> priorities es = Inr (map f es)"
  by (induction es) simp_all

lemma entry_of_fields:
  assumes "entry_of c = Some (k, e)"
  shows "k = entry_key e" and "pf_format_id e \<noteq> []"
    and "pf_type e = ''video'' \<or> pf_type e = ''audio''"
    and "classify c = Some (pf_type e, pf_quality e)"
    and "e = make_entry c (pf_type e) (pf_quality e)"
proof -
  from assms obtain ty q where cq: "classify c = Some (ty, q)"
    and k: "k = dedup_key ty q (fmt_ext c)" and e: "e = make_entry c ty q"
    by (auto simp: entry_of_def split: option.splits)
  from e have f: "pf_type e = ty" "pf_quality e = q" "pf_ext e = fmt_ext c"
    "pf_format_id e = fmt_format_id c"
    by (simp_all add: make_entry_def)
  show "k = entry_key e" using k f by (simp add: entry_key_def)
  show "pf_format_id e \<noteq> []" using classify_format_id [OF cq] f by simp
  show "pf_type e = ''video'' \<or> pf_type e = ''audio''" using classify_type [OF cq] f by simp
  show "classify c = Some (pf_type e, pf_quality e)" using cq f by simp
  show "e = make_entry c (pf_type e) (pf_quality e)" using e f by simp
qed

lemma entry_of_video_priority:
  assumes "entry_of c = Some (k, e)" "is_video e"
  shows "format_priority e = Inr (label_priority e)"
proof -
  from assms(2) have ty: "pf_type e = ''video''" by (simp add: is_video_def)
  from entry_of_fields(4) [OF assms(1)] ty have "classify c = Some (''video'', pf_quality e)"
    by simp
  from format_priority_video [OF this] entry_of_fields(5) [OF assms(1)] ty
  show ?thesis by simp
qed

lemma entry_of_video_label:
  assumes "entry_of c = Some (k, e)" "is_video e"
  shows "\<exists>h. pf_height e = Some h \<and> 144 \<le> h
        \<and> (pf_quality e = str_int h @ ''p (with audio)'' \<or> pf_quality e = str_int h @ ''p'')"
proof -
  from assms(2) have ty: "pf_type e = ''video''" by (simp add: is_video_def)
  from entry_of_fields(4) [OF assms(1)] ty have "classify c = Some (''video'', pf_quality e)"
    by simp
  from classify_video [OF this] obtain h where h: "fmt_height c = Some h" "144 \<le> h"
    "pf_quality e = str_int h @ ''p (with audio)'' \<or> pf_quality e = str_int h @ ''p''"
    by blast
  from entry_of_fields(5) [OF assms(1)] have "pf_height e = fmt_height c"
    by (metis make_entry_def processed_format.select_convs(7))
  with h show ?thesis by auto
qed

lemma loop_inv_entries:
  assumes "loop_inv fs d" "(k, e) \<in> set d"
  shows "\<exists>c \<in> set fs. entry_of c = Some (k, e)"
proof -
  from assms obtain i where "best_at fs k i" "entry_of (fs ! i) = Some (k, e)"
    by (auto simp: loop_inv_def)
  then show ?thesis by (auto simp: best_at_def intro!: bexI [of _ "fs ! i"])
qed

lemma loop_inv_snd:
  assumes "loop_inv fs d" "e \<in> set (map snd d)"
  shows "\<exists>c \<in> set fs. entry_of c = Some (entry_key e, e)"
proof -
  from assms(2) obtain k where "(k, e) \<in> set d" by auto
  from loop_inv_entries [OF assms(1) this] obtain c where c: "c \<in> set fs" "entry_of c = Some (k, e)"
    by blast
  with entry_of_fields(1) [OF c(2)] show ?thesis by auto
qed

lemma loop_inv_values_sorted:
  assumes "loop_inv fs d"
  shows "sorted_wrt (\<lambda>a b. first_pos fs (entry_key a) < first_pos fs (entry_key b)) (map snd d)"
proof -
  from assms have "sorted_wrt (\<lambda>a b. first_pos fs a < first_pos fs b) (map fst d)"
    by (simp add: loop_inv_def)
  then have s: "sorted_wrt (\<lambda>x y. first_pos fs (fst x) < first_pos fs (fst y)) d"
    by (simp add: sorted_wrt_map)
  have "sorted_wrt (\<lambda>x y. first_pos fs (entry_key (snd x)) < first_pos fs (entry_key (snd y))) d"
  proof (rule sorted_wrt_mono_rel [OF _ s])
    fix x y assume x: "x \<in> set d" and y: "y \<in> set d"
      and lt: "first_pos fs (fst x) < first_pos fs (fst y)"
    from x loop_inv_entries [OF assms, of "fst x" "snd x"] obtain cx
      where "entry_of cx = Some (fst x, snd x)" by auto
    then have kx: "fst x = entry_key (snd x)" by (rule entry_of_fields(1))
    from y loop_inv_entries [OF assms, of "fst y" "snd y"] obtain cy
      where "entry_of cy = Some (fst y, snd y)" by auto
    then have ky: "fst y = entry_key (snd y)" by (rule entry_of_fields(1))
    from lt kx ky show "first_pos fs (entry_key (snd x)) < first_pos fs (entry_key (snd y))"
      by simp
  qed
  then show ?thesis by (simp add: sorted_wrt_map)
qed

lemma zip_map_self: "zip (map f xs) xs = map (\<lambda>e. (f e, e)) xs"
  by (induction xs) simp_all

lemma process_formats_unfold:
  assumes "process_formats fs = Inr out"
  shows "\<exists>d. process_loop [] fs = Inr d
     \<and> out = map snd (sort_reverse (map (\<lambda>e. (label_priority e, e)) (filter is_video (map snd d))))
             @ filter (\<lambda>e. \<not> is_video e) (map snd d)"
proof -
  from assms obtain d where d: "process_loop [] fs = Inr d"
    by (auto simp: process_formats_def split: sum.splits)
  let ?V = "filter is_video (map snd d)"
  have inv: "loop_inv fs d" using d by (rule process_loop_inv)
  have "\<forall>e \<in> set ?V. format_priority e = Inr (label_priority e)"
  proof
    fix e assume e: "e \<in> set ?V"
    then have "e \<in> set (map snd d)" "is_video e" by simp_all
    with loop_inv_snd [OF inv] entry_of_video_priority show "format_priority e = Inr (label_priority e)"
      by blast
  qed
  then have pr: "priorities ?V = Inr (map label_priority ?V)" by (rule priorities_all)
  have z: "zip (map label_priority ?V) ?V = map (\<lambda>e. (label_priority e, e)) ?V"
    by (rule zip_map_self)
  have fv: "filter (\<lambda>f. pf_type f = ''video'') (map snd d) = ?V"
    and fa: "filter (\<lambda>f. pf_type f \<noteq> ''video'') (map snd d) = filter (\<lambda>e. \<not> is_video e) (map snd d)"
    by (simp_all add: is_video_def [abs_def])
  from assms d have "out = map snd (sort_reverse (zip (map label_priority ?V) ?V))
      @ filter (\<lambda>e. \<not> is_video e) (map snd d)"
    by (simp add: process_formats_def Let_def fv fa pr)
  with z d show ?thesis by auto
qed

lemma process_formats_parts:
  assumes "process_formats fs = Inr out"
  shows "\<exists>d. process_loop [] fs = Inr d \<and> loop_inv fs d
     \<and> set out = snd ` set d \<and> length out = length d
     \<and> filter is_video out
         = map snd (sort_reverse (map (\<lambda>e. (label_priority e, e)) (filter is_video (map snd d))))
     \<and> filter (\<lambda>e. \<not> is_video e) out = filter (\<lambda>e. \<not> is_video e) (map snd d)"
proof -
  from process_formats_unfold [OF assms] obtain d where d: "process_loop [] fs = Inr d"
    and out: "out = map snd (sort_reverse (map (\<lambda>e. (label_priority e, e)) (filter is_video (map snd d))))
             @ filter (\<lambda>e. \<not> is_video e) (map snd d)"
    by blast
  let ?V = "filter is_video (map snd d)"
  let ?A = "filter (\<lambda>e. \<not> is_video e) (map snd d)"
  let ?S = "map snd (sort_reverse (map (\<lambda>e. (label_priority e, e)) ?V))"
  have setS: "set ?S = set ?V"
    by (simp add: set_sort_reverse image_image)
  have lenS: "length ?S = length ?V"
    by (simp add: length_sort_reverse)
  have "set out = set ?S \<union> set ?A" by (subst out) (rule set_append)
  then have "set out = set ?V \<union> set ?A" by (simp only: setS)
  then have so: "set out = snd ` set d" by auto
  have "length ?V + length ?A = length (map snd d)"
    by (rule sum_length_filter_compl)
  moreover have "length out = length ?S + length ?A" by (subst out) (rule length_append)
  ultimately have lo: "length out = length d" by (simp add: length_sort_reverse)
  have vS: "filter is_video ?S = ?S"
    using setS by (intro filter_True) simp
  have vA: "filter is_video ?A = []"
    by (intro filter_False) simp
  have aS: "filter (\<lambda>e. \<not> is_video e) ?S = []"
    using setS by (intro filter_False) simp
  have aA: "filter (\<lambda>e. \<not> is_video e) ?A = ?A"
    by (intro filter_True) simp
  have fv: "filter is_video out = ?S"
    by (subst out) (simp only: filter_append vS vA append_Nil2)
  have fa: "filter (\<lambda>e. \<not> is_video e) out = ?A"
    by (subst out) (simp only: filter_append aS aA append_Nil)
  have inv: "loop_inv fs d" using d by (rule process_loop_inv)
  show ?thesis
    by (intro exI [of _ d] conjI) (fact d, fact inv, fact so, fact lo, fact fv, fact fa)
qed

lemma video_group_sorted:
  assumes inv: "loop_inv fs d"
  shows "sorted_wrt (\<lambda>a b. key_less (label_priority b) (label_priority a)
            \<or> (label_priority a = label_priority b
                \<and> first_pos fs (entry_key a) < first_pos fs (entry_key b)))
          (map snd (sort_reverse (map (\<lambda>e. (label_priority e, e)) (filter is_video (map snd d)))))"
proof -
  let ?V = "filter is_video (map snd d)"
  let ?Q = "\<lambda>a b. first_pos fs (entry_key (snd a)) < first_pos fs (entry_key (snd b))"
  let ?xs = "map (\<lambda>e. (label_priority e, e)) ?V"
  have "sorted_wrt (\<lambda>a b. first_pos fs (entry_key a) < first_pos fs (entry_key b)) ?V"
    using loop_inv_values_sorted [OF inv] by (rule sorted_wrt_filter)
  then have "sorted_wrt ?Q ?xs" by (simp add: sorted_wrt_map)
  then have s: "sorted_wrt (\<lambda>a b. key_less (fst b) (fst a) \<or> (fst a = fst b \<and> ?Q a b)) (sort_reverse ?xs)"
    by (rule sorted_sort_reverse)
  have "sorted_wrt (\<lambda>a b. key_less (label_priority (snd b)) (label_priority (snd a))
            \<or> (label_priority (snd a) = label_priority (snd b) \<and> ?Q a b)) (sort_reverse ?xs)"
  proof (rule sorted_wrt_mono_rel [OF _ s])
    fix x y assume "x \<in> set (sort_reverse ?xs)" "y \<in> set (sort_reverse ?xs)"
      and r: "key_less (fst y) (fst x) \<or> (fst x = fst y \<and> ?Q x y)"
    then have "fst x = label_priority (snd x)" "fst y = label_priority (snd y)"
      by (auto simp: set_sort_reverse)
    with r show "key_less (label_priority (snd y)) (label_priority (snd x))
            \<or> (label_priority (snd x) = label_priority (snd y) \<and> ?Q x y)"
      by simp
  qed
  then show ?thesis by (simp add: sorted_wrt_map)
qed

lemma key_less_flag: "\<not> key_less a b \<Longrightarrow> fst b \<Longrightarrow> fst a"
  by (cases a; cases b) (auto simp: key_less_def split: if_splits)

lemma key_less_asym: "key_less a b \<Longrightarrow> \<not> key_less b a"
  by (cases a; cases b) (auto simp: key_less_def split: if_splits)

text \<open>
  C2. Whenever the processing returns a list \<open>out\<close>: \<open>out\<close> is its video entries
  followed by its other entries, which are the audio entries; it holds exactly the
  values of the dictionary the loop built. The key
  \<^verbatim>\<open>format_priority\<close> computes for a video entry by parsing its label is
  (label contains \<^verbatim>\<open>(with audio)\<close>, height), the label being \<^verbatim>\<open>{height}p\<close> or
  \<^verbatim>\<open>{height}p (with audio)\<close>. The video entries are in descending order of that key,
  entries of equal key in the order in which their deduplication keys were first seen in
  the input (the sort is stable); so no video entry without audio precedes one with
  audio. The audio entries are in the order in which their keys were first seen, not
  sorted by anything else.
\<close>

theorem video_then_audio_order:
  assumes "process_formats fs = Inr out"
  shows "out = filter is_video out @ filter (\<lambda>e. \<not> is_video e) out
     \<and> (\<exists>d. process_loop [] fs = Inr d \<and> set out = snd ` set d \<and> length out = length d)
     \<and> (\<forall>e \<in> set out. if is_video e
            then format_priority e = Inr (label_priority e)
              \<and> (\<exists>h. pf_height e = Some h \<and> 144 \<le> h
                   \<and> (pf_quality e = str_int h @ ''p (with audio)'' \<or> pf_quality e = str_int h @ ''p''))
            else pf_type e = ''audio'')
     \<and> sorted_wrt (\<lambda>a b. key_less (label_priority b) (label_priority a)
            \<or> (label_priority a = label_priority b
                \<and> first_pos fs (entry_key a) < first_pos fs (entry_key b)))
          (filter is_video out)
     \<and> (\<forall>i j. i < j \<and> j < length (filter is_video out)
            \<and> fst (label_priority (filter is_video out ! j))
          \<longrightarrow> fst (label_priority (filter is_video out ! i)))
     \<and> sorted_wrt (\<lambda>a b. first_pos fs (entry_key a) < first_pos fs (entry_key b))
          (filter (\<lambda>e. \<not> is_video e) out)"
proof -
  from process_formats_parts [OF assms] obtain d where d: "process_loop [] fs = Inr d"
    and inv: "loop_inv fs d" and so: "set out = snd ` set d" and lo: "length out = length d"
    and fv: "filter is_video out
         = map snd (sort_reverse (map (\<lambda>e. (label_priority e, e)) (filter is_video (map snd d))))"
    and fa: "filter (\<lambda>e. \<not> is_video e) out = filter (\<lambda>e. \<not> is_video e) (map snd d)"
    by blast
  let ?R = "\<lambda>a b. key_less (label_priority b) (label_priority a)
            \<or> (label_priority a = label_priority b
                \<and> first_pos fs (entry_key a) < first_pos fs (entry_key b))"
  from process_formats_unfold [OF assms] d
  have "out = map snd (sort_reverse (map (\<lambda>e. (label_priority e, e)) (filter is_video (map snd d))))
             @ filter (\<lambda>e. \<not> is_video e) (map snd d)"
    by simp
  then have p1: "out = filter is_video out @ filter (\<lambda>e. \<not> is_video e) out"
    unfolding fv fa .
  have p2: "\<exists>d. process_loop [] fs = Inr d \<and> set out = snd ` set d \<and> length out = length d"
    using d so lo by blast
  have p3: "\<forall>e \<in> set out. if is_video e
            then format_priority e = Inr (label_priority e)
              \<and> (\<exists>h. pf_height e = Some h \<and> 144 \<le> h
                   \<and> (pf_quality e = str_int h @ ''p (with audio)'' \<or> pf_quality e = str_int h @ ''p''))
            else pf_type e = ''audio''"
  proof
    fix e assume "e \<in> set out"
    with so have "e \<in> set (map snd d)" by simp
    from loop_inv_snd [OF inv this] obtain c where c: "entry_of c = Some (entry_key e, e)"
      by blast
    show "if is_video e
            then format_priority e = Inr (label_priority e)
              \<and> (\<exists>h. pf_height e = Some h \<and> 144 \<le> h
                   \<and> (pf_quality e = str_int h @ ''p (with audio)'' \<or> pf_quality e = str_int h @ ''p''))
            else pf_type e = ''audio''"
    proof (cases "is_video e")
      case True
      with entry_of_video_priority [OF c] entry_of_video_label [OF c] show ?thesis by simp
    next
      case False
      with entry_of_fields(3) [OF c] show ?thesis by (simp add: is_video_def)
    qed
  qed
  have p4: "sorted_wrt ?R (filter is_video out)"
    using video_group_sorted [OF inv] fv by simp
  have p5: "\<forall>i j. i < j \<and> j < length (filter is_video out)
            \<and> fst (label_priority (filter is_video out ! j))
          \<longrightarrow> fst (label_priority (filter is_video out ! i))"
  proof (intro allI impI)
    fix i j assume h: "i < j \<and> j < length (filter is_video out)
            \<and> fst (label_priority (filter is_video out ! j))"
    let ?V = "filter is_video out"
    from p4 h have r: "?R (?V ! i) (?V ! j)"
      by (simp add: sorted_wrt_iff_nth_less)
    have "\<not> key_less (label_priority (?V ! i)) (label_priority (?V ! j))"
    proof
      assume lt: "key_less (label_priority (?V ! i)) (label_priority (?V ! j))"
      from r show False
      proof
        assume "key_less (label_priority (?V ! j)) (label_priority (?V ! i))"
        with key_less_asym [OF lt] show False by simp
      next
        assume "label_priority (?V ! i) = label_priority (?V ! j)
            \<and> first_pos fs (entry_key (?V ! i)) < first_pos fs (entry_key (?V ! j))"
        with lt key_less_irrefl show False by simp
      qed
    qed
    from key_less_flag [OF this] h show "fst (label_priority (?V ! i))" by simp
  qed
  have p6: "sorted_wrt (\<lambda>a b. first_pos fs (entry_key a) < first_pos fs (entry_key b))
          (filter (\<lambda>e. \<not> is_video e) out)"
    using loop_inv_values_sorted [OF inv] fa by (simp add: sorted_wrt_filter)
  show ?thesis
    by (intro conjI) (fact p1, fact p2, fact p3, fact p4, fact p5, fact p6)
qed

lemma example_run: "process_formats example_formats = Inr example_processed"
  by code_simp

lemma classify_discard_id:
  "fmt_format_id c = [] \<or> startswith (fmt_format_id c) ''sb'' \<Longrightarrow> classify c = None"
  by (auto simp: classify_def)

lemma classify_combined:
  "\<lbrakk>fmt_format_id c \<noteq> []; \<not> startswith (fmt_format_id c) ''sb'';
    fmt_vcodec c \<noteq> ''none''; fmt_acodec c \<noteq> ''none''; fmt_height c = Some h; 144 \<le> h\<rbrakk>
   \<Longrightarrow> classify c = Some (''video'', str_int h @ ''p (with audio)'')"
  by (simp add: classify_def height_ok_def fmt_opt_int_def)

lemma classify_video_only:
  "\<lbrakk>fmt_format_id c \<noteq> []; \<not> startswith (fmt_format_id c) ''sb'';
    fmt_vcodec c \<noteq> ''none''; fmt_acodec c = ''none''; fmt_height c = Some h; 144 \<le> h\<rbrakk>
   \<Longrightarrow> classify c = Some (''video'', str_int h @ ''p'')"
  by (simp add: classify_def height_ok_def fmt_opt_int_def)

lemma classify_audio_rate:
  "\<lbrakk>fmt_format_id c \<noteq> []; \<not> startswith (fmt_format_id c) ''sb'';
    fmt_vcodec c = ''none''; fmt_acodec c \<noteq> ''none''; fmt_abr c = Some r; r \<noteq> 0\<rbrakk>
   \<Longrightarrow> classify c = Some (''audio'', ''Audio '' @ str_int (py_int_of_num r) @ ''kbps'')"
  by (simp add: classify_def audio_quality_def)

lemma classify_audio_ext:
  "\<lbrakk>fmt_format_id c \<noteq> []; \<not> startswith (fmt_format_id c) ''sb'';
    fmt_vcodec c = ''none''; fmt_acodec c \<noteq> ''none''; fmt_abr c = None \<or> fmt_abr c = Some 0\<rbrakk>
   \<Longrightarrow> classify c = Some (''audio'', ''Audio ('' @ upper (fmt_ext c) @ '')'')"
  by (auto simp: classify_def audio_quality_def)

lemma classify_other:
  "(fmt_vcodec c \<noteq> ''none'' \<and> \<not> (\<exists>h. fmt_height c = Some h \<and> 144 \<le> h))
     \<or> (fmt_vcodec c = ''none'' \<and> fmt_acodec c = ''none'')
   \<Longrightarrow> classify c = None"
  by (auto simp: classify_def Let_def height_ok_def split: option.splits)

lemma process_format_discard: "classify c = None \<Longrightarrow> process_format d c = Inr d"
  by (simp add: process_format_def)

lemma process_formats_entries:
  assumes "process_formats fs = Inr out" "e \<in> set out"
  shows "pf_format_id e \<noteq> [] \<and> \<not> startswith (pf_format_id e) ''sb''
       \<and> (\<exists>c \<in> set fs. classify c = Some (pf_type e, pf_quality e)
              \<and> e = make_entry c (pf_type e) (pf_quality e))"
proof -
  from process_formats_parts [OF assms(1)] obtain d
    where inv: "loop_inv fs d" and so: "set out = snd ` set d" by blast
  from so assms(2) have "e \<in> set (map snd d)" by simp
  from loop_inv_snd [OF inv this] obtain c where c: "c \<in> set fs" "entry_of c = Some (entry_key e, e)"
    by blast
  note f = entry_of_fields [OF c(2)]
  from f(5) have "pf_format_id e = fmt_format_id c"
    by (metis make_entry_def processed_format.select_convs(1))
  with classify_format_id [OF f(4)] have "pf_format_id e \<noteq> [] \<and> \<not> startswith (pf_format_id e) ''sb''"
    by simp
  with c(1) f(4) f(5) show ?thesis by blast
qed

text \<open>
  C9. An empty list of raw formats gives an empty list of processed formats, and no
  exception: the body returns the empty list and the handler does not answer \<^verbatim>\<open>None\<close>.
\<close>

theorem empty_formats: "process_formats [] = Inr [] \<and> get_video_info_formats [] = Some []"
  by (simp add: process_formats_def get_video_info_formats_def sort_reverse_def)

text \<open>
  C1 (the failing input). Two audio candidates share the key \<^verbatim>\<open>audio_Audio (M4A)_m4a\<close>.
  The first has neither a file size nor a bit rate (\<^verbatim>\<open>tbr\<close> is \<^verbatim>\<open>None\<close>), so its score
  is 0 by the rule the loop applies to a new candidate; the second has a file size of
  100 and should replace it. Reading the score of the stored entry multiplies
  \<^verbatim>\<open>None\<close> by 1000: the loop raises \<^verbatim>\<open>TypeError\<close> and \<^verbatim>\<open>get_video_info\<close> answers
  \<^verbatim>\<open>None\<close> instead of a list that keeps the second candidate.
\<close>

theorem unknown_tbr_duplicate_raises:
  "process_formats
     [example_candidate ''139'' None ''m4a'' ''none'' ''mp4a'' None None None,
      example_candidate ''140'' None ''m4a'' ''none'' ''mp4a'' (Some 100) None None]
     = Inl TypeError
   \<and> get_video_info_formats
     [example_candidate ''139'' None ''m4a'' ''none'' ''mp4a'' None None None,
      example_candidate ''140'' None ''m4a'' ''none'' ''mp4a'' (Some 100) None None]
     = None"
  by code_simp

theorem video_then_audio_order_witness:
  "process_formats example_formats = Inr example_processed
   \<and> map pf_format_id example_processed = [''22'', ''137'', ''140'', ''251'']
   \<and> map pf_format_id (filter is_video example_processed) = [''22'', ''137'']
   \<and> sorted_wrt (\<lambda>a b. key_less (label_priority b) (label_priority a)
            \<or> (label_priority a = label_priority b
                \<and> first_pos example_formats (entry_key a) < first_pos example_formats (entry_key b)))
       (filter is_video example_processed)
   \<and> sorted_wrt (\<lambda>a b. first_pos example_formats (entry_key a) < first_pos example_formats (entry_key b))
       (filter (\<lambda>e. \<not> is_video e) example_processed)"
proof -
  note run = example_run
  have ids: "map pf_format_id example_processed = [''22'', ''137'', ''140'', ''251'']"
    by (simp add: example_processed_def example_entry_def)
  have vids: "map pf_format_id (filter is_video example_processed) = [''22'', ''137'']"
    by (simp add: example_processed_def example_entry_def is_video_def)
  note t = video_then_audio_order [OF run]
  note s1 = t [THEN conjunct2, THEN conjunct2, THEN conjunct2, THEN conjunct1]
  note s2 = t [THEN conjunct2, THEN conjunct2, THEN conjunct2, THEN conjunct2, THEN conjunct2]
  show ?thesis
    by (intro conjI) (fact run, fact ids, fact vids, fact s1, fact s2)
qed

















lemma replace_runs_Nil: "replace_runs [] = []"
  by (simp add: replace_runs_def)

lemma replace_runs_sep:
  assumes "is_sep c"
  shows "replace_runs (c # cs) = CHR ''_'' # replace_runs (dropWhile is_sep cs)"
proof -
  from assms have "(\<lambda>x. is_sep x = is_sep c) = is_sep" by auto
  with assms show ?thesis by (simp add: replace_runs_def)
qed

lemma replace_runs_other:
  assumes "\<not> is_sep c"
  shows "replace_runs (c # cs) = c # replace_runs cs"
proof (cases cs)
  case Nil
  with assms show ?thesis by (simp add: replace_runs_def)
next
  case (Cons c' cs')
  show ?thesis
  proof (cases "is_sep c'")
    case True
    with assms Cons show ?thesis by (simp add: replace_runs_def)
  next
    case False
    with assms have "(\<lambda>x. is_sep x = is_sep c) = (\<lambda>x. is_sep x = is_sep c')" by auto
    with assms False Cons show ?thesis by (simp add: replace_runs_def)
  qed
qed

lemma sub_runs_replace_runs: "sub_runs s = replace_runs s"
  by (induction s rule: sub_runs.induct)
    (simp_all add: replace_runs_Nil replace_runs_sep replace_runs_other)

lemma concat_split_runs: "concat (split_runs P s) = s"
  by (induction P s rule: split_runs.induct) simp_all

lemma split_runs_uniform:
  "r \<in> set (split_runs P s) \<Longrightarrow> r \<noteq> [] \<and> (\<forall>x \<in> set r. P x = P (hd r))"
proof (induction P s rule: split_runs.induct)
  case (1 P)
  then show ?case by simp
next
  case (2 P c cs)
  from "2.prems" have "r = c # takeWhile (\<lambda>x. P x = P c) cs
      \<or> r \<in> set (split_runs P (dropWhile (\<lambda>x. P x = P c) cs))"
    by simp
  then show ?case
  proof
    assume "r = c # takeWhile (\<lambda>x. P x = P c) cs"
    then show ?thesis by (auto dest: set_takeWhileD)
  next
    assume "r \<in> set (split_runs P (dropWhile (\<lambda>x. P x = P c) cs))"
    then show ?thesis by (rule "2.IH")
  qed
qed

lemma hd_split_runs: "s \<noteq> [] \<Longrightarrow> hd (hd (split_runs P s)) = hd s"
  by (cases s) simp_all

lemma split_runs_Nil_iff: "split_runs P s = [] \<longleftrightarrow> s = []"
  by (cases s) simp_all

lemma split_runs_maximal:
  "Suc i < length (split_runs P s)
     \<Longrightarrow> P (hd (split_runs P s ! i)) \<noteq> P (hd (split_runs P s ! Suc i))"
proof (induction P s arbitrary: i rule: split_runs.induct)
  case (1 P)
  then show ?case by simp
next
  case (2 P c cs)
  let ?rest = "dropWhile (\<lambda>x. P x = P c) cs"
  show ?case
  proof (cases i)
    case 0
    with "2.prems" have ne: "?rest \<noteq> []" by (auto simp: split_runs_Nil_iff)
    then have d: "\<not> (P (hd ?rest) = P c)" by (rule hd_dropWhile)
    from ne have "split_runs P ?rest \<noteq> []" by (simp add: split_runs_Nil_iff)
    then have "split_runs P ?rest ! 0 = hd (split_runs P ?rest)" by (simp add: hd_conv_nth)
    then have "hd (split_runs P ?rest ! 0) = hd ?rest" using ne by (simp add: hd_split_runs)
    with 0 d show ?thesis by auto
  next
    case (Suc j)
    with "2.prems" have "Suc j < length (split_runs P ?rest)" by simp
    from "2.IH" [OF this] Suc show ?thesis by simp
  qed
qed

lemma strip_decompose:
  "\<exists>a b. s = a @ strip s @ b \<and> list_all is_space a \<and> list_all is_space b"
proof -
  let ?t = "dropWhile is_space s"
  have "rev (takeWhile is_space (rev ?t) @ dropWhile is_space (rev ?t)) = ?t"
    by (simp only: takeWhile_dropWhile_id rev_rev_ident)
  then have "rev (dropWhile is_space (rev ?t)) @ rev (takeWhile is_space (rev ?t)) = ?t"
    by (simp only: rev_append)
  then have t: "?t = strip s @ rev (takeWhile is_space (rev ?t))"
    by (simp only: strip_def)
  have "s = takeWhile is_space s @ ?t" by simp
  with t have "s = takeWhile is_space s @ strip s @ rev (takeWhile is_space (rev ?t))"
    by simp
  moreover have "list_all is_space (takeWhile is_space s)"
    by (auto simp: list_all_iff dest: set_takeWhileD)
  moreover have "list_all is_space (rev (takeWhile is_space (rev ?t)))"
    by (auto simp: list_all_iff dest: set_takeWhileD)
  ultimately show ?thesis by blast
qed

lemma strip_ends:
  assumes "strip s \<noteq> []"
  shows "\<not> is_space (hd (strip s)) \<and> \<not> is_space (last (strip s))"
proof -
  let ?t = "dropWhile is_space s"
  let ?u = "dropWhile is_space (rev ?t)"
  from assms have une: "?u \<noteq> []" by (simp add: strip_def)
  then have "\<not> is_space (hd ?u)" by (rule hd_dropWhile)
  then have l: "\<not> is_space (last (strip s))" using une by (simp add: strip_def last_rev)
  have tne: "?t \<noteq> []"
  proof
    assume e: "?t = []"
    have "?u = dropWhile is_space (rev [])" by (simp only: e)
    then have "?u = []" by (simp only: rev.simps dropWhile.simps)
    with une show False by (simp only: not_False_eq_True simp_thms)
  qed
  then have ht: "\<not> is_space (hd ?t)" by (rule hd_dropWhile)
  have "rev (takeWhile is_space (rev ?t) @ ?u) = ?t"
    by (simp only: takeWhile_dropWhile_id rev_rev_ident)
  then have "rev ?u @ rev (takeWhile is_space (rev ?t)) = ?t"
    by (simp only: rev_append)
  then have "?t = strip s @ rev (takeWhile is_space (rev ?t))" by (simp only: strip_def)
  then have "hd ?t = hd (strip s @ rev (takeWhile is_space (rev ?t)))" by (rule arg_cong)
  moreover have "hd (strip s @ rev (takeWhile is_space (rev ?t))) = hd (strip s)"
    using assms by (rule hd_append2)
  ultimately have "hd ?t = hd (strip s)" by (rule trans)
  with ht l show ?thesis by simp
qed

lemma sub_runs_word:
  "\<forall>c \<in> set s. keep_char c \<Longrightarrow> \<forall>c \<in> set (sub_runs s). is_word c"
proof (induction s rule: sub_runs.induct)
  case 1
  then show ?case by simp
next
  case (2 c cs)
  show ?case
  proof (cases "is_sep c")
    case True
    from "2.prems" have "\<forall>x \<in> set (dropWhile is_sep cs). keep_char x"
      by (auto dest: set_dropWhileD)
    with "2.IH"(1) [OF True] have "\<forall>x \<in> set (sub_runs (dropWhile is_sep cs)). is_word x" by simp
    moreover have "is_word CHR ''_''" by (simp add: is_word_def)
    ultimately show ?thesis using True by simp
  next
    case False
    from "2.prems" have "\<forall>x \<in> set cs. keep_char x" by simp
    with "2.IH"(2) [OF False] have "\<forall>x \<in> set (sub_runs cs). is_word x" by simp
    moreover from False "2.prems" have "is_word c" by (auto simp: keep_char_def is_sep_def)
    ultimately show ?thesis using False by simp
  qed
qed

lemma safe_title_word: "c \<in> set (safe_title title) \<Longrightarrow> is_word c"
proof -
  assume c: "c \<in> set (safe_title title)"
  have "\<forall>x \<in> set (strip (filter keep_char title)). keep_char x"
    by (auto simp: strip_def dest!: set_dropWhileD)
  then have "\<forall>x \<in> set (sub_runs (strip (filter keep_char title))). is_word x"
    by (rule sub_runs_word)
  with c show ?thesis by (auto simp: safe_title_def dest: in_set_takeD)
qed

lemma safe_title_replace_runs:
  "safe_title title = take 50 (replace_runs (strip (filter keep_char title)))"
  by (simp add: safe_title_def sub_runs_replace_runs)

lemma safe_title_length: "length (safe_title title) \<le> 50"
  by (simp add: safe_title_def)

lemma safe_title_example: "safe_title ''Amazing Video!! (2024)'' = ''Amazing_Video_2024''"
  by code_simp

text \<open>
  C6. The safe file name of a title is the first 50 characters of the text obtained by
  keeping only the word characters, the whitespace and the hyphens of the title,
  stripping it, and replacing each of its maximal runs of separators (whitespace and
  hyphens) by one underscore. Stripping removes a whitespace prefix and a whitespace
  suffix and leaves a text that neither starts nor ends with whitespace. The runs of a
  text are non-empty, each of one kind, alternate in kind, and concatenate to the text.
  The name has at most 50 characters, all of them word characters. The title
  \<^verbatim>\<open>Amazing Video!! (2024)\<close> gives \<^verbatim>\<open>Amazing_Video_2024\<close>.
\<close>

theorem safe_title_derivation:
  "safe_title title = take 50 (replace_runs (strip (filter keep_char title)))
   \<and> length (safe_title title) \<le> 50
   \<and> (\<forall>c \<in> set (safe_title title). is_word c)
   \<and> (\<exists>a b. s = a @ strip s @ b \<and> list_all is_space a \<and> list_all is_space b)
   \<and> (strip s \<noteq> [] \<longrightarrow> \<not> is_space (hd (strip s)) \<and> \<not> is_space (last (strip s)))
   \<and> concat (split_runs is_sep s) = s
   \<and> (\<forall>r \<in> set (split_runs is_sep s). r \<noteq> [] \<and> (\<forall>x \<in> set r. is_sep x = is_sep (hd r)))
   \<and> (\<forall>i. Suc i < length (split_runs is_sep s) \<longrightarrow>
          is_sep (hd (split_runs is_sep s ! i)) \<noteq> is_sep (hd (split_runs is_sep s ! Suc i)))
   \<and> safe_title ''Amazing Video!! (2024)'' = ''Amazing_Video_2024''"
proof (intro conjI ballI allI impI)
  show "safe_title title = take 50 (replace_runs (strip (filter keep_char title)))"
    by (rule safe_title_replace_runs)
  show "length (safe_title title) \<le> 50" by (rule safe_title_length)
  show "is_word c" if "c \<in> set (safe_title title)" for c
    using that by (rule safe_title_word)
  show "\<exists>a b. s = a @ strip s @ b \<and> list_all is_space a \<and> list_all is_space b"
    by (rule strip_decompose)
  show "\<not> is_space (hd (strip s))" "\<not> is_space (last (strip s))" if "strip s \<noteq> []"
    using strip_ends [OF that] by (rule conjunct1, rule conjunct2)
  show "concat (split_runs is_sep s) = s" by (rule concat_split_runs)
  show "r \<noteq> []" if "r \<in> set (split_runs is_sep s)" for r
    using split_runs_uniform [OF that] by (rule conjunct1)
  show "is_sep x = is_sep (hd r)" if "r \<in> set (split_runs is_sep s)" "x \<in> set r" for r x
    using split_runs_uniform [OF that(1), THEN conjunct2] that(2) by (rule bspec)
  show "is_sep (hd (split_runs is_sep s ! i)) \<noteq> is_sep (hd (split_runs is_sep s ! Suc i))"
    if "Suc i < length (split_runs is_sep s)" for i
    using that by (rule split_runs_maximal)
  show "safe_title ''Amazing Video!! (2024)'' = ''Amazing_Video_2024''"
    by (rule safe_title_example)
qed

theorem safe_title_derivation_witness:
  "safe_title ''  My - Video!  '' = ''My_Video''
   \<and> is_word CHR ''M''
   \<and> \<not> is_space (hd (strip '' a -b ''))
   \<and> [CHR ''a''] \<noteq> []
   \<and> is_sep CHR '' '' = is_sep (hd '' -'')
   \<and> is_sep (hd (split_runs is_sep '' a -b '' ! 0)) \<noteq> is_sep (hd (split_runs is_sep '' a -b '' ! Suc 0))"
proof -
  note t = safe_title_derivation [of "''  My - Video!  ''" "'' a -b ''"]
  have v: "take 50 (replace_runs (strip (filter keep_char ''  My - Video!  ''))) = ''My_Video''"
    by code_simp
  have ne: "strip '' a -b '' \<noteq> []" by code_simp
  have runs: "split_runs is_sep '' a -b '' = ['' '', ''a'', '' -'', ''b'', '' '']" by code_simp
  from t [THEN conjunct1] have w1: "safe_title ''  My - Video!  '' = ''My_Video''"
    by (simp only: v)
  have m: "CHR ''M'' \<in> set (safe_title ''  My - Video!  '')" by (simp add: w1)
  note w2 = t [THEN conjunct2, THEN conjunct2, THEN conjunct1, THEN bspec, OF m]
  note w3 = t [THEN conjunct2, THEN conjunct2, THEN conjunct2, THEN conjunct2, THEN conjunct1,
      THEN mp, OF ne, THEN conjunct1]
  note c7 = t [THEN conjunct2, THEN conjunct2, THEN conjunct2, THEN conjunct2, THEN conjunct2,
      THEN conjunct2, THEN conjunct1]
  have m1: "[CHR ''a''] \<in> set (split_runs is_sep '' a -b '')" unfolding runs by simp
  note w4 = c7 [THEN bspec, OF m1, THEN conjunct1]
  have m2: "'' -'' \<in> set (split_runs is_sep '' a -b '')" unfolding runs by simp
  have m3: "CHR '' '' \<in> set '' -''" by simp
  note w5 = c7 [THEN bspec, OF m2, THEN conjunct2, THEN bspec, OF m3]
  have l: "Suc 0 < length (split_runs is_sep '' a -b '')" unfolding runs by simp
  note w6 = t [THEN conjunct2, THEN conjunct2, THEN conjunct2, THEN conjunct2, THEN conjunct2,
      THEN conjunct2, THEN conjunct2, THEN conjunct1, THEN spec, THEN mp, OF l]
  show ?thesis
    by (intro conjI) (fact w1, fact w2, fact w3, fact w4, fact w5, fact w6)
qed

lemma split_on_no_sep: "sep \<notin> set a \<Longrightarrow> split_on sep a = [a]"
  by (induction a) auto

lemma split_on_append: "sep \<notin> set a \<Longrightarrow> split_on sep (a @ sep # r) = a # split_on sep r"
  by (induction a) auto

lemma split_on_selector_tail:
  "split_on CHR ''/'' ''best[vcodec!=\"none\"][acodec!=\"none\"]/best[height<=?1080][vcodec!=\"none\"][acodec!=\"none\"]/best''
     = [''best[vcodec!=\"none\"][acodec!=\"none\"]'',
        ''best[height<=?1080][vcodec!=\"none\"][acodec!=\"none\"]'',
        ''best'']"
  by code_simp

text \<open>
  C7, as the code has it. For a non-empty \<^verbatim>\<open>format_id\<close> without \<^verbatim>\<open>/\<close>, outside audio
  mode, the expression has exactly four alternatives, in this order: the chosen id merged
  with the best audio; the best format with both codecs present, with no cap on the
  height; the best format with both codecs present and a height of at most 1080 (or
  unknown); the best format overall.
\<close>

theorem format_selector_alternatives:
  "format_id \<noteq> [] \<and> CHR ''/'' \<notin> set format_id \<and> download_type \<noteq> ''audio''
   \<longrightarrow> alternatives (format_selector download_type format_id)
       = [format_id @ ''+bestaudio'',
          ''best[vcodec!=\"none\"][acodec!=\"none\"]'',
          ''best[height<=?1080][vcodec!=\"none\"][acodec!=\"none\"]'',
          ''best'']"
proof
  assume h: "format_id \<noteq> [] \<and> CHR ''/'' \<notin> set format_id \<and> download_type \<noteq> ''audio''"
  then have n: "CHR ''/'' \<notin> set (format_id @ ''+bestaudio'')" by simp
  have "format_selector download_type format_id
      = (format_id @ ''+bestaudio'') @ CHR ''/'' #
        ''best[vcodec!=\"none\"][acodec!=\"none\"]/best[height<=?1080][vcodec!=\"none\"][acodec!=\"none\"]/best''"
    using h by (simp add: format_selector_def)
  then have "alternatives (format_selector download_type format_id)
      = (format_id @ ''+bestaudio'') #
        split_on CHR ''/'' ''best[vcodec!=\"none\"][acodec!=\"none\"]/best[height<=?1080][vcodec!=\"none\"][acodec!=\"none\"]/best''"
    unfolding alternatives_def by (simp only: split_on_append [OF n])
  then show "alternatives (format_selector download_type format_id)
       = [format_id @ ''+bestaudio'',
          ''best[vcodec!=\"none\"][acodec!=\"none\"]'',
          ''best[height<=?1080][vcodec!=\"none\"][acodec!=\"none\"]'',
          ''best'']"
    by (simp only: split_on_selector_tail)
qed

theorem format_selector_alternatives_witness:
  "alternatives (format_selector ''video'' ''22'')
     = [''22+bestaudio'',
        ''best[vcodec!=\"none\"][acodec!=\"none\"]'',
        ''best[height<=?1080][vcodec!=\"none\"][acodec!=\"none\"]'',
        ''best'']"
  using format_selector_alternatives [of "''22''" "''video''"] by simp

text \<open>
  C7, as the specification states it, fails: at the format id \<^verbatim>\<open>22\<close> the expression
  has four alternatives, not the three listed, and the second one has no height cap.
\<close>

theorem format_selector_alternatives_counterexample:
  "alternatives (format_selector ''video'' ''22'') \<noteq> claimed_alternatives ''22''
   \<and> length (alternatives (format_selector ''video'' ''22'')) = 4
   \<and> alternatives (format_selector ''video'' ''22'') ! 1 = ''best[vcodec!=\"none\"][acodec!=\"none\"]''"
  by code_simp







lemma example_video_request:
  "download_route example_extract (example_request (JStr ''https://youtu.be/abc'') ''video'')
     = Response 400
         [(''error'', JStr ''Direct download not supported for videos with audio. Using server download.'')]"
  by code_simp




text \<open>
  C8 (the failing input). A request to \<^verbatim>\<open>/server_download\<close> whose \<^verbatim>\<open>url\<close> is the number
  5 makes \<^verbatim>\<open>.strip()\<close> raise \<^verbatim>\<open>AttributeError\<close>. The response is a 500 whose message is
  \<^verbatim>\<open>Server error: \<close> followed by the text of the exception. The \<^verbatim>\<open>/download\<close> endpoint
  answers the same request with its fixed message.
\<close>

theorem server_download_leaks_exception:
  "server_download download_video (JDict [(''url'', JInt 5), (''format_id'', JStr ''18'')])
     = Response 500
         [(''error'', JStr (''Server error: '' @ quoted ''int''
                            @ '' object has no attribute '' @ quoted ''strip''))]
   \<and> download_route extract_info (JDict [(''url'', JInt 5), (''format_id'', JStr ''18'')])
     = Response 500
         [(''error'', JStr ''An error occurred while preparing the download. Please try again.'')]"
  by (simp add: server_download_def server_download_body_def download_route_def download_body_def)

lemma loop_inv_keys:
  assumes "loop_inv fs d"
  shows "map fst d = map entry_key (map snd d)"
proof -
  have "fst x = entry_key (snd x)" if "x \<in> set d" for x
  proof -
    from that loop_inv_entries [OF assms, of "fst x" "snd x"] obtain c
      where "entry_of c = Some (fst x, snd x)" by auto
    then show ?thesis by (rule entry_of_fields(1))
  qed
  then show ?thesis by simp
qed

text \<open>
  Whenever the processing returns a list, the list is as the deduplication step is
  described: no two entries share a key, every key of a candidate that is kept has its
  entry, and the entry of a key is built from the first candidate among those of the
  highest score for that key (scores compared as exact numbers).
\<close>

lemma process_formats_dedup:
  assumes "process_formats fs = Inr out"
  shows "distinct (map entry_key out)"
    and "\<forall>e \<in> set out. \<exists>i. best_at fs (entry_key e) i \<and> entry_of (fs ! i) = Some (entry_key e, e)"
    and "\<forall>c \<in> set fs. \<forall>k. cand_key c = Some k \<longrightarrow> (\<exists>e \<in> set out. entry_key e = k)"
proof -
  from process_formats_parts [OF assms] obtain d where inv: "loop_inv fs d"
    and so: "set out = snd ` set d" and lo: "length out = length d"
    by blast
  from inv have dk: "distinct (map fst d)" by (simp add: loop_inv_def)
  then have dk': "distinct (map entry_key (map snd d))" by (simp only: loop_inv_keys [OF inv])
  then have dv: "distinct (map snd d)" and inj: "inj_on entry_key (set (map snd d))"
    by (simp_all only: distinct_map)
  have so': "set out = set (map snd d)" using so by simp
  have "card (set out) = length (map snd d)"
    unfolding so' using dv by (rule distinct_card)
  then have "card (set out) = length out" using lo by simp
  then have dout: "distinct out" by (rule card_distinct)
  from inj have "inj_on entry_key (set out)" by (simp only: so')
  with dout show "distinct (map entry_key out)" by (simp only: distinct_map simp_thms)
  show "\<forall>e \<in> set out. \<exists>i. best_at fs (entry_key e) i \<and> entry_of (fs ! i) = Some (entry_key e, e)"
  proof
    fix e assume "e \<in> set out"
    with so obtain k where ke: "(k, e) \<in> set d" by auto
    with inv obtain i where i: "best_at fs k i" "entry_of (fs ! i) = Some (k, e)"
      by (auto simp: loop_inv_def)
    from i(2) have "k = entry_key e" by (rule entry_of_fields(1))
    with i show "\<exists>i. best_at fs (entry_key e) i \<and> entry_of (fs ! i) = Some (entry_key e, e)"
      by auto
  qed
  show "\<forall>c \<in> set fs. \<forall>k. cand_key c = Some k \<longrightarrow> (\<exists>e \<in> set out. entry_key e = k)"
  proof (intro ballI allI impI)
    fix c k assume "c \<in> set fs" "cand_key c = Some k"
    with inv have "k \<in> fst ` set d" by (auto simp: loop_inv_def)
    then obtain e where ke: "(k, e) \<in> set d" by auto
    from loop_inv_entries [OF inv ke] obtain c' where "entry_of c' = Some (k, e)" by blast
    then have "k = entry_key e" by (rule entry_of_fields(1))
    moreover from ke so have "e \<in> set out" by force
    ultimately show "\<exists>e \<in> set out. entry_key e = k" by auto
  qed
qed

text \<open>
  The processing returns a list whenever every candidate has a known bit rate or a
  known non-zero size, and no size is beyond the range of a float: then the score of a
  stored entry can always be read and the size in megabytes can be computed.
\<close>

lemma existing_score_known:
  assumes "entry_of c = Some (k, e)" and "score_readable c"
  shows "\<exists>s. existing_score e = Inr s"
  using assms
  by (auto simp: entry_of_def make_entry_def existing_score_def truthy_def score_readable_def
      stored_tbr_times_1000_def split: option.splits if_splits)

lemma store_format_readable:
  assumes "entry_of c = Some (k, e)" and "score_readable c"
  shows "store_format k e (pf_filesize e) d = Inr (dict_set k e d)"
  using assms
  by (auto simp: entry_of_def make_entry_def store_format_def score_readable_def
      split: option.splits)

lemma process_loop_total:
  assumes "\<forall>c \<in> set fs. score_readable c"
  shows "\<exists>d. process_loop [] fs = Inr d"
  using assms
proof (induction fs rule: rev_induct)
  case Nil
  show ?case by simp
next
  case (snoc c fs)
  then obtain d where d: "process_loop [] fs = Inr d" by auto
  have inv: "loop_inv fs d" using d by (rule process_loop_inv)
  from snoc.prems have rc: "score_readable c" by simp
  have "\<exists>d'. process_format d c = Inr d'"
  proof (cases "entry_of c")
    case None
    then show ?thesis by (simp add: process_format_entry_of)
  next
    case (Some p)
    obtain k e where p: "p = (k, e)" by (cases p)
    from Some p have ke: "entry_of c = Some (k, e)" by simp
    note st = store_format_readable [OF ke rc]
    show ?thesis
    proof (cases "map_of d k")
      case None
      with ke st show ?thesis by (simp add: process_format_entry_of)
    next
      case (Some ex)
      then have "(k, ex) \<in> set d" by (rule map_of_SomeD)
      from loop_inv_entries [OF inv this] obtain c' where c': "c' \<in> set fs"
        "entry_of c' = Some (k, ex)" by blast
      from c'(1) snoc.prems have "score_readable c'" by simp
      from existing_score_known [OF c'(2) this] obtain s where "existing_score ex = Inr s" ..
      with Some ke st show ?thesis by (simp add: process_format_entry_of)
    qed
  qed
  with d show ?case by (simp add: process_loop_snoc)
qed

lemma process_formats_total:
  assumes "\<forall>c \<in> set fs. score_readable c"
  shows "\<exists>out. process_formats fs = Inr out"
proof -
  from process_loop_total [OF assms] obtain d where d: "process_loop [] fs = Inr d" ..
  have inv: "loop_inv fs d" using d by (rule process_loop_inv)
  let ?V = "filter (\<lambda>f. pf_type f = ''video'') (map snd d)"
  have "\<forall>e \<in> set ?V. format_priority e = Inr (label_priority e)"
  proof
    fix e assume "e \<in> set ?V"
    then have "e \<in> set (map snd d)" "is_video e" by (simp_all add: is_video_def)
    with loop_inv_snd [OF inv] entry_of_video_priority show "format_priority e = Inr (label_priority e)"
      by blast
  qed
  then have "priorities ?V = Inr (map label_priority ?V)" by (rule priorities_all)
  with d show ?thesis by (simp add: process_formats_def Let_def)
qed

lemma is_digit_not_underscore: "is_digit c \<Longrightarrow> c \<noteq> CHR ''_''"
  by (auto simp: is_digit_def)

lemma str_nat_no_underscore: "CHR ''_'' \<notin> set (str_nat n)"
  using str_nat_digits [of n] by (auto simp: list_all_iff dest: is_digit_not_underscore)

lemma str_int_no_underscore: "CHR ''_'' \<notin> set (str_int n)"
  by (simp add: str_int_def str_nat_no_underscore)

lemma str_int_hd: "str_int n \<noteq> [] \<and> hd (str_int n) \<noteq> CHR ''(''"
proof (cases "n < 0")
  case True
  then show ?thesis by (simp add: str_int_def)
next
  case False
  have "is_digit (hd (str_nat (nat n)))" by (rule str_nat_hd_digit)
  then have "hd (str_nat (nat n)) \<noteq> CHR ''(''" by (auto simp: is_digit_def)
  with False show ?thesis by (simp add: str_int_def str_nat_nonempty)
qed

lemma split_at_first:
  "x \<notin> set a \<Longrightarrow> x \<notin> set b \<Longrightarrow> a @ x # r = b @ x # s \<Longrightarrow> a = b \<and> r = s"
proof (induction a arbitrary: b)
  case Nil
  then show ?case by (cases b) auto
next
  case (Cons y a)
  then show ?case by (cases b) auto
qed

lemma upper_append: "upper (a @ b) = upper a @ upper b"
  by (simp add: upper_def)

lemma py_upper_char_nonempty: "py_upper_char c \<noteq> []"
  by (simp add: py_upper_char_def Let_def)

lemma upper_Nil_iff: "upper s = [] \<longleftrightarrow> s = []"
  by (cases s) (simp_all add: upper_def py_upper_char_nonempty)

lemma ext_label_inj_le:
  assumes eq: "upper e1 @ m @ e1 = upper e2 @ m @ e2" and le: "length e1 \<le> length e2"
  shows "e1 = e2"
proof -
  from eq have "(upper e1 @ m) @ e1 = (upper e2 @ m) @ e2" by simp
  then obtain us where us: "(upper e1 @ m = (upper e2 @ m) @ us \<and> us @ e1 = e2)
      \<or> ((upper e1 @ m) @ us = upper e2 @ m \<and> e1 = us @ e2)"
    unfolding append_eq_append_conv2 by blast
  then show ?thesis
  proof
    assume a: "upper e1 @ m = (upper e2 @ m) @ us \<and> us @ e1 = e2"
    then have e2: "e2 = us @ e1" by simp
    from a have "length (upper e1 @ m) = length ((upper e2 @ m) @ us)" by simp
    then have "length (upper e1) = length (upper e2) + length us" by simp
    then have "length (upper us) + length us = 0"
      unfolding e2 upper_append by (simp add: upper_Nil_iff)
    then have "length us = 0" by arith
    then have "us = []" by simp
    with e2 show ?thesis by simp
  next
    assume "(upper e1 @ m) @ us = upper e2 @ m \<and> e1 = us @ e2"
    then have "e1 = us @ e2" by simp
    with le show ?thesis by simp
  qed
qed

lemma ext_label_inj:
  assumes "upper e1 @ m @ e1 = upper e2 @ m @ e2"
  shows "e1 = e2"
proof (cases "length e1 \<le> length e2")
  case True
  with assms show ?thesis by (rule ext_label_inj_le)
next
  case False
  then have "length e2 \<le> length e1" by simp
  with assms [symmetric] have "e2 = e1" by (rule ext_label_inj_le)
  then show ?thesis by simp
qed

text \<open>The labels of a class: what \<^verbatim>\<open>quality\<close> can be for a candidate that is kept.\<close>

lemma classify_label:
  assumes "classify c = Some (ty, q)"
  shows "(ty = ''video'' \<and> CHR ''_'' \<notin> set q)
       \<or> (ty = ''audio'' \<and> (\<exists>n. q = ''Audio '' @ str_int n @ ''kbps''))
       \<or> (ty = ''audio'' \<and> q = ''Audio ('' @ upper (fmt_ext c) @ '')'')"
proof -
  from classify_type [OF assms] show ?thesis
  proof
    assume v: "ty = ''video''"
    with assms classify_video [of c q] obtain h
      where "q = str_int h @ ''p (with audio)'' \<or> q = str_int h @ ''p''" by blast
    then have "CHR ''_'' \<notin> set q" by (auto simp: str_int_no_underscore)
    with v show ?thesis by simp
  next
    assume a: "ty = ''audio''"
    with assms classify_audio [of c q] have "q = audio_quality (fmt_abr c) (fmt_ext c)" by blast
    with a show ?thesis by (auto simp: audio_quality_def split: option.splits if_splits)
  qed
qed

lemma rate_label_no_underscore: "CHR ''_'' \<notin> set (''Audio '' @ str_int n @ ''kbps'')"
  by (simp add: str_int_no_underscore)

lemma rate_label_not_ext_label:
  "(''Audio '' @ str_int n @ ''kbps'') @ CHR ''_'' # e1 \<noteq> (''Audio ('' @ u @ '')'') @ CHR ''_'' # e2"
proof
  assume "(''Audio '' @ str_int n @ ''kbps'') @ CHR ''_'' # e1 = (''Audio ('' @ u @ '')'') @ CHR ''_'' # e2"
  then have "str_int n @ ''kbps'' @ CHR ''_'' # e1 = CHR ''('' # u @ '')'' @ CHR ''_'' # e2" by simp
  then have "hd (str_int n @ ''kbps'' @ CHR ''_'' # e1) = CHR ''(''" by simp
  with str_int_hd [of n] show False by simp
qed

text \<open>
  The key string determines the triple of type, label and extension among the classes
  the loop produces: two kept candidates have the same key only if they have the same
  type, the same label and the same extension.
\<close>

lemma dedup_key_inj:
  assumes c1: "classify c1 = Some (t1, q1)" and c2: "classify c2 = Some (t2, q2)"
    and k: "dedup_key t1 q1 (fmt_ext c1) = dedup_key t2 q2 (fmt_ext c2)"
  shows "t1 = t2 \<and> q1 = q2 \<and> fmt_ext c1 = fmt_ext c2"
proof -
  have u1: "CHR ''_'' \<notin> set t1" using classify_type [OF c1] by auto
  have u2: "CHR ''_'' \<notin> set t2" using classify_type [OF c2] by auto
  from k have "t1 @ CHR ''_'' # (q1 @ CHR ''_'' # fmt_ext c1) = t2 @ CHR ''_'' # (q2 @ CHR ''_'' # fmt_ext c2)"
    by (simp add: dedup_key_def)
  then have tr: "t1 = t2 \<and> q1 @ CHR ''_'' # fmt_ext c1 = q2 @ CHR ''_'' # fmt_ext c2"
    by (rule split_at_first [OF u1 u2])
  then have t: "t1 = t2" and r: "q1 @ CHR ''_'' # fmt_ext c1 = q2 @ CHR ''_'' # fmt_ext c2"
    by (rule conjunct1, rule conjunct2)
  note l1 = classify_label [OF c1]
  note l2 = classify_label [OF c2]
  have plain: "q1 = q2 \<and> fmt_ext c1 = fmt_ext c2"
    if "CHR ''_'' \<notin> set q1" "CHR ''_'' \<notin> set q2"
    using that r by (rule split_at_first)
  consider (v) "t1 = ''video''"
    | (rr) n1 n2 where "q1 = ''Audio '' @ str_int n1 @ ''kbps''" "q2 = ''Audio '' @ str_int n2 @ ''kbps''"
    | (re) n1 where "q1 = ''Audio '' @ str_int n1 @ ''kbps''" "q2 = ''Audio ('' @ upper (fmt_ext c2) @ '')''"
    | (er) n2 where "q1 = ''Audio ('' @ upper (fmt_ext c1) @ '')''" "q2 = ''Audio '' @ str_int n2 @ ''kbps''"
    | (ee) "q1 = ''Audio ('' @ upper (fmt_ext c1) @ '')''" "q2 = ''Audio ('' @ upper (fmt_ext c2) @ '')''"
    using l1 l2 t by auto
  then have "q1 = q2 \<and> fmt_ext c1 = fmt_ext c2"
  proof cases
    case v
    with l1 l2 t have "CHR ''_'' \<notin> set q1" "CHR ''_'' \<notin> set q2" by auto
    then show ?thesis by (rule plain)
  next
    case rr
    show ?thesis
      by (rule plain) (simp_all only: rr rate_label_no_underscore not_False_eq_True)
  next
    case re
    from r have False unfolding re using rate_label_not_ext_label [of n1 "fmt_ext c1" "upper (fmt_ext c2)" "fmt_ext c2"]
      by simp
    then show ?thesis ..
  next
    case er
    from r have False unfolding er using rate_label_not_ext_label [of n2 "fmt_ext c2" "upper (fmt_ext c1)" "fmt_ext c1"]
      by simp
    then show ?thesis ..
  next
    case ee
    from r have "upper (fmt_ext c1) @ '')_'' @ fmt_ext c1 = upper (fmt_ext c2) @ '')_'' @ fmt_ext c2"
      unfolding ee by simp
    then have "fmt_ext c1 = fmt_ext c2" by (rule ext_label_inj)
    with ee show ?thesis by simp
  qed
  with t show ?thesis by simp
qed

lemma process_loop_filter:
  "process_loop d (filter (\<lambda>c. classify c \<noteq> None) fs) = process_loop d fs"
proof (induction fs arbitrary: d)
  case Nil
  show ?case by simp
next
  case (Cons c fs)
  show ?case
  proof (cases "classify c = None")
    case True
    then have "process_format d c = Inr d" by (rule process_format_discard)
    with True Cons.IH [of d] show ?thesis by simp
  next
    case False
    then have "filter (\<lambda>c. classify c \<noteq> None) (c # fs) = c # filter (\<lambda>c. classify c \<noteq> None) fs"
      by simp
    then show ?thesis
      by (cases "process_format d c") (simp_all only: process_loop.simps sum.case Cons.IH)
  qed
qed

lemma process_formats_filter:
  "process_formats (filter (\<lambda>c. classify c \<noteq> None) fs) = process_formats fs"
  unfolding process_formats_def by (simp only: process_loop_filter)

lemma process_formats_single:
  "process_formats [c] =
     (case classify c of
        None \<Rightarrow> Inr []
      | Some (ty, q) \<Rightarrow>
          if filesize_mb_raises (py_or (fmt_filesize c) (fmt_filesize_approx c))
          then Inl OverflowError
          else Inr [make_entry c ty q])"
proof (cases "classify c")
  case None
  then show ?thesis
    by (simp add: process_formats_def process_format_def sort_reverse_def)
next
  case (Some p)
  obtain ty q where p: "p = (ty, q)" by (cases p)
  with Some have cl: "classify c = Some (ty, q)" by simp
  let ?e = "make_entry c ty q"
  let ?k = "dedup_key ty q (fmt_ext c)"
  let ?f = "py_or (fmt_filesize c) (fmt_filesize_approx c)"
  have pf: "process_format [] c = store_format ?k ?e ?f []"
    using cl by (simp add: process_format_def Let_def)
  show ?thesis
  proof (cases "filesize_mb_raises ?f")
    case True
    with pf cl show ?thesis by (simp add: process_formats_def store_format_def)
  next
    case False
    with pf have loop: "process_loop [] [c] = Inr [(?k, ?e)]" by (simp add: store_format_def)
    have ty: "pf_type ?e = ty" by (simp add: make_entry_def)
    from classify_type [OF cl] have "process_formats [c] = Inr [?e]"
    proof
      assume v: "ty = ''video''"
      with cl have "format_priority ?e = Inr (label_priority ?e)"
        using format_priority_video [of c q] by simp
      then have "priorities [?e] = Inr [label_priority ?e]" by simp
      with loop ty v show ?thesis by (simp add: process_formats_def sort_reverse_def)
    next
      assume a: "ty = ''audio''"
      with loop ty show ?thesis by (simp add: process_formats_def sort_reverse_def)
    qed
    with False cl show ?thesis by simp
  qed
qed

lemma process_formats_classes:
  assumes "process_formats fs = Inr out" "c \<in> set fs" "classify c = Some (ty, q)"
  shows "\<exists>e \<in> set out. pf_type e = ty \<and> pf_quality e = q \<and> pf_ext e = fmt_ext c"
proof -
  from assms(3) have "cand_key c = Some (dedup_key ty q (fmt_ext c))"
    by (simp add: cand_key_def entry_of_def)
  with process_formats_dedup(3) [OF assms(1)] assms(2)
  obtain e where e: "e \<in> set out" "entry_key e = dedup_key ty q (fmt_ext c)" by blast
  from process_formats_entries [OF assms(1) e(1)] obtain c' where
    c': "classify c' = Some (pf_type e, pf_quality e)" "e = make_entry c' (pf_type e) (pf_quality e)"
    by blast
  from c'(2) have x: "pf_ext e = fmt_ext c'"
    by (metis make_entry_def processed_format.select_convs(3))
  from e(2) have "dedup_key (pf_type e) (pf_quality e) (fmt_ext c') = dedup_key ty q (fmt_ext c)"
    by (simp add: entry_key_def x)
  from dedup_key_inj [OF c'(1) assms(3) this] x e(1) show ?thesis by auto
qed

lemma process_formats_entry_fields:
  assumes "process_formats fs = Inr out" "e \<in> set out"
  shows "pf_format_id e \<noteq> [] \<and> \<not> startswith (pf_format_id e) ''sb''
       \<and> (\<exists>c \<in> set fs. classify c = Some (pf_type e, pf_quality e)
              \<and> pf_format_id e = fmt_format_id c \<and> pf_ext e = fmt_ext c
              \<and> e = make_entry c (pf_type e) (pf_quality e))"
proof -
  from process_formats_entries [OF assms] obtain c where
    n: "pf_format_id e \<noteq> []" "\<not> startswith (pf_format_id e) ''sb''" and
    c: "c \<in> set fs" "classify c = Some (pf_type e, pf_quality e)"
       "e = make_entry c (pf_type e) (pf_quality e)"
    by blast
  from c(3) have "pf_format_id e = fmt_format_id c"
    by (metis make_entry_def processed_format.select_convs(1))
  moreover from c(3) have "pf_ext e = fmt_ext c"
    by (metis make_entry_def processed_format.select_convs(3))
  ultimately show ?thesis using n c by blast
qed

lemma upper_examples:
  "upper ''webm'' = ''WEBM''
   \<and> upper [CHR ''a'', CHR 0xDF, CHR 0xE9] = [CHR ''A'', CHR ''S'', CHR ''S'', CHR 0xC9]"
  by code_simp

lemma classification_run:
  "process_formats
     [example_candidate ''sb0'' (Some 720) ''mhtml'' ''none'' ''none'' None None None,
      example_candidate ''139'' None ''m4a'' ''none'' ''mp4a'' None None None,
      example_candidate ''160'' (Some 100) ''mp4'' ''avc1'' ''none'' None None None]
     = Inr [example_entry ''139'' ''Audio (M4A)'' ''m4a'' ''audio'' None None None]"
  by code_simp

text \<open>No two entries of a returned list have the same type, label and extension.\<close>

lemma process_formats_triples:
  assumes "process_formats fs = Inr out"
  shows "distinct (map (\<lambda>e. (pf_type e, pf_quality e, pf_ext e)) out)"
proof -
  from process_formats_dedup(1) [OF assms]
  have d: "distinct out" and i: "inj_on entry_key (set out)"
    by (simp_all only: distinct_map)
  have "inj_on (\<lambda>e. (pf_type e, pf_quality e, pf_ext e)) (set out)"
  proof (rule inj_onI)
    fix a b assume a: "a \<in> set out" and b: "b \<in> set out"
      and "(pf_type a, pf_quality a, pf_ext a) = (pf_type b, pf_quality b, pf_ext b)"
    then have "entry_key a = entry_key b" by (simp add: entry_key_def)
    with i a b show "a = b" by (simp add: inj_on_def)
  qed
  with d show ?thesis by (simp only: distinct_map simp_thms)
qed

text \<open>
  C3. Classification of one candidate, in the order of the source, and what the
  returned list holds of it. A candidate whose \<^verbatim>\<open>format_id\<close> is empty or starts with
  \<^verbatim>\<open>sb\<close> is discarded. Otherwise: with both codecs present and a height of at least
  144 it is a video labelled \<^verbatim>\<open>{height}p (with audio)\<close>; with a video codec only and
  such a height it is a video labelled \<^verbatim>\<open>{height}p\<close>; with an audio codec only it is
  an audio, labelled \<^verbatim>\<open>Audio {n}kbps\<close> when the audio bit rate is known and nonzero
  (\<open>n\<close> is the rate truncated to an integer, as \<^verbatim>\<open>int(abr)\<close> does), else
  \<^verbatim>\<open>Audio ({EXT})\<close> with the extension in upper case (for an extension whose upper
  case can be written with code points below 256; the sharp s becomes \<^verbatim>\<open>SS\<close>). Every
  other candidate is discarded.

  A discarded candidate leaves the dictionary as it was, and the result for a list is
  the result for the list without its discarded candidates. A list of one candidate
  gives the empty list when the candidate is discarded and otherwise the one entry of
  its class (or the overflow error of the size in megabytes). Whenever a list is
  returned: every entry has a non-empty \<^verbatim>\<open>format_id\<close> that does not start with
  \<^verbatim>\<open>sb\<close> and is built from a candidate of the input, with the type and the label of
  that candidate's class, its \<^verbatim>\<open>format_id\<close> and its extension; and every candidate
  of the input that is not discarded has an entry of its type, label and extension.
  A storyboard, an audio without bit rate and a video of height 100 together give the
  one entry \<^verbatim>\<open>Audio (M4A)\<close>.
\<close>

theorem classification_cases:
  "(fmt_format_id c = [] \<or> startswith (fmt_format_id c) ''sb'' \<longrightarrow> classify c = None)
   \<and> (fmt_format_id c \<noteq> [] \<and> \<not> startswith (fmt_format_id c) ''sb''
        \<and> fmt_vcodec c \<noteq> ''none'' \<and> fmt_acodec c \<noteq> ''none''
        \<and> fmt_height c = Some h \<and> 144 \<le> h
      \<longrightarrow> classify c = Some (''video'', str_int h @ ''p (with audio)''))
   \<and> (fmt_format_id c \<noteq> [] \<and> \<not> startswith (fmt_format_id c) ''sb''
        \<and> fmt_vcodec c \<noteq> ''none'' \<and> fmt_acodec c = ''none''
        \<and> fmt_height c = Some h \<and> 144 \<le> h
      \<longrightarrow> classify c = Some (''video'', str_int h @ ''p''))
   \<and> (fmt_format_id c \<noteq> [] \<and> \<not> startswith (fmt_format_id c) ''sb''
        \<and> fmt_vcodec c = ''none'' \<and> fmt_acodec c \<noteq> ''none''
        \<and> fmt_abr c = Some r \<and> r \<noteq> 0
      \<longrightarrow> classify c = Some (''audio'', ''Audio '' @ str_int (py_int_of_num r) @ ''kbps''))
   \<and> (fmt_format_id c \<noteq> [] \<and> \<not> startswith (fmt_format_id c) ''sb''
        \<and> fmt_vcodec c = ''none'' \<and> fmt_acodec c \<noteq> ''none''
        \<and> (fmt_abr c = None \<or> fmt_abr c = Some 0)
        \<and> list_all upper_in_range (fmt_ext c)
      \<longrightarrow> classify c = Some (''audio'', ''Audio ('' @ upper (fmt_ext c) @ '')''))
   \<and> upper ''webm'' = ''WEBM''
   \<and> upper [CHR ''a'', CHR 0xDF, CHR 0xE9] = [CHR ''A'', CHR ''S'', CHR ''S'', CHR 0xC9]
   \<and> ((fmt_vcodec c \<noteq> ''none'' \<and> \<not> (\<exists>n. fmt_height c = Some n \<and> 144 \<le> n))
        \<or> (fmt_vcodec c = ''none'' \<and> fmt_acodec c = ''none'')
      \<longrightarrow> classify c = None)
   \<and> (classify c = None \<longrightarrow> process_format d c = Inr d)
   \<and> process_formats (filter (\<lambda>c. classify c \<noteq> None) fs) = process_formats fs
   \<and> process_formats [c] =
        (case classify c of
           None \<Rightarrow> Inr []
         | Some (ty, q) \<Rightarrow>
             if filesize_mb_raises (py_or (fmt_filesize c) (fmt_filesize_approx c))
             then Inl OverflowError
             else Inr [make_entry c ty q])
   \<and> (process_formats fs = Inr out \<longrightarrow>
        (\<forall>e \<in> set out. pf_format_id e \<noteq> [] \<and> \<not> startswith (pf_format_id e) ''sb''
           \<and> (\<exists>c' \<in> set fs. classify c' = Some (pf_type e, pf_quality e)
                 \<and> pf_format_id e = fmt_format_id c' \<and> pf_ext e = fmt_ext c'
                 \<and> e = make_entry c' (pf_type e) (pf_quality e))))
   \<and> (process_formats fs = Inr out \<longrightarrow>
        (\<forall>c' \<in> set fs. \<forall>ty q. classify c' = Some (ty, q) \<longrightarrow>
           (\<exists>e \<in> set out. pf_type e = ty \<and> pf_quality e = q \<and> pf_ext e = fmt_ext c')))
   \<and> process_formats
        [example_candidate ''sb0'' (Some 720) ''mhtml'' ''none'' ''none'' None None None,
         example_candidate ''139'' None ''m4a'' ''none'' ''mp4a'' None None None,
         example_candidate ''160'' (Some 100) ''mp4'' ''avc1'' ''none'' None None None]
        = Inr [example_entry ''139'' ''Audio (M4A)'' ''m4a'' ''audio'' None None None]"
proof (intro conjI impI ballI allI)
  assume "fmt_format_id c = [] \<or> startswith (fmt_format_id c) ''sb''"
  then show "classify c = None" by (rule classify_discard_id)
next
  assume "fmt_format_id c \<noteq> [] \<and> \<not> startswith (fmt_format_id c) ''sb''
        \<and> fmt_vcodec c \<noteq> ''none'' \<and> fmt_acodec c \<noteq> ''none''
        \<and> fmt_height c = Some h \<and> 144 \<le> h"
  then show "classify c = Some (''video'', str_int h @ ''p (with audio)'')"
    by (intro classify_combined) simp_all
next
  assume "fmt_format_id c \<noteq> [] \<and> \<not> startswith (fmt_format_id c) ''sb''
        \<and> fmt_vcodec c \<noteq> ''none'' \<and> fmt_acodec c = ''none''
        \<and> fmt_height c = Some h \<and> 144 \<le> h"
  then show "classify c = Some (''video'', str_int h @ ''p'')"
    by (intro classify_video_only) simp_all
next
  assume "fmt_format_id c \<noteq> [] \<and> \<not> startswith (fmt_format_id c) ''sb''
        \<and> fmt_vcodec c = ''none'' \<and> fmt_acodec c \<noteq> ''none''
        \<and> fmt_abr c = Some r \<and> r \<noteq> 0"
  then show "classify c = Some (''audio'', ''Audio '' @ str_int (py_int_of_num r) @ ''kbps'')"
    by (intro classify_audio_rate) simp_all
next
  assume "fmt_format_id c \<noteq> [] \<and> \<not> startswith (fmt_format_id c) ''sb''
        \<and> fmt_vcodec c = ''none'' \<and> fmt_acodec c \<noteq> ''none''
        \<and> (fmt_abr c = None \<or> fmt_abr c = Some 0)
        \<and> list_all upper_in_range (fmt_ext c)"
  then show "classify c = Some (''audio'', ''Audio ('' @ upper (fmt_ext c) @ '')'')"
    by (intro classify_audio_ext) simp_all
next
  show "upper ''webm'' = ''WEBM''" by (rule upper_examples [THEN conjunct1])
next
  show "upper [CHR ''a'', CHR 0xDF, CHR 0xE9] = [CHR ''A'', CHR ''S'', CHR ''S'', CHR 0xC9]"
    by (rule upper_examples [THEN conjunct2])
next
  assume "(fmt_vcodec c \<noteq> ''none'' \<and> \<not> (\<exists>n. fmt_height c = Some n \<and> 144 \<le> n))
        \<or> (fmt_vcodec c = ''none'' \<and> fmt_acodec c = ''none'')"
  then show "classify c = None" by (rule classify_other)
next
  assume "classify c = None"
  then show "process_format d c = Inr d" by (rule process_format_discard)
next
  show "process_formats (filter (\<lambda>c. classify c \<noteq> None) fs) = process_formats fs"
    by (rule process_formats_filter)
next
  show "process_formats [c] =
        (case classify c of
           None \<Rightarrow> Inr []
         | Some (ty, q) \<Rightarrow>
             if filesize_mb_raises (py_or (fmt_filesize c) (fmt_filesize_approx c))
             then Inl OverflowError
             else Inr [make_entry c ty q])"
    by (rule process_formats_single)
next
  fix e assume "process_formats fs = Inr out" "e \<in> set out"
  from process_formats_entry_fields [OF this]
  show "pf_format_id e \<noteq> []" "\<not> startswith (pf_format_id e) ''sb''"
    "\<exists>c' \<in> set fs. classify c' = Some (pf_type e, pf_quality e)
                 \<and> pf_format_id e = fmt_format_id c' \<and> pf_ext e = fmt_ext c'
                 \<and> e = make_entry c' (pf_type e) (pf_quality e)"
    by blast+
next
  fix c' ty q
  assume "process_formats fs = Inr out" "c' \<in> set fs" "classify c' = Some (ty, q)"
  then show "\<exists>e \<in> set out. pf_type e = ty \<and> pf_quality e = q \<and> pf_ext e = fmt_ext c'"
    by (rule process_formats_classes)
next
  show "process_formats
        [example_candidate ''sb0'' (Some 720) ''mhtml'' ''none'' ''none'' None None None,
         example_candidate ''139'' None ''m4a'' ''none'' ''mp4a'' None None None,
         example_candidate ''160'' (Some 100) ''mp4'' ''avc1'' ''none'' None None None]
        = Inr [example_entry ''139'' ''Audio (M4A)'' ''m4a'' ''audio'' None None None]"
    by (rule classification_run)
qed

theorem classification_cases_witness:
  "classify (example_candidate ''sb0'' (Some 720) ''mhtml'' ''none'' ''none'' None None None) = None
   \<and> classify (example_candidate ''22'' (Some 720) ''mp4'' ''avc1'' ''mp4a'' None None None)
       = Some (''video'', ''720p (with audio)'')
   \<and> classify (example_candidate ''137'' (Some 1080) ''mp4'' ''avc1'' ''none'' None None None)
       = Some (''video'', ''1080p'')
   \<and> classify (example_candidate ''140'' None ''m4a'' ''none'' ''mp4a'' None None (Some 128))
       = Some (''audio'', ''Audio 128kbps'')
   \<and> classify (example_candidate ''139'' None ''m4a'' ''none'' ''mp4a'' None None None)
       = Some (''audio'', ''Audio (M4A)'')
   \<and> classify (example_candidate ''160'' (Some 100) ''mp4'' ''avc1'' ''none'' None None None) = None
   \<and> process_format [] (example_candidate ''160'' (Some 100) ''mp4'' ''avc1'' ''none'' None None None)
       = Inr []
   \<and> pf_format_id (example_entry ''22'' ''720p (with audio)'' ''mp4'' ''video'' (Some 3000) None (Some 720)) \<noteq> []
   \<and> (\<exists>e \<in> set example_processed.
         pf_type e = ''audio'' \<and> pf_quality e = ''Audio 128kbps'' \<and> pf_ext e = ''m4a'')"
proof -
  let ?sb = "example_candidate ''sb0'' (Some 720) ''mhtml'' ''none'' ''none'' None None None"
  let ?c22 = "example_candidate ''22'' (Some 720) ''mp4'' ''avc1'' ''mp4a'' None None None"
  let ?c137 = "example_candidate ''137'' (Some 1080) ''mp4'' ''avc1'' ''none'' None None None"
  let ?c140 = "example_candidate ''140'' None ''m4a'' ''none'' ''mp4a'' None None (Some 128)"
  let ?c139 = "example_candidate ''139'' None ''m4a'' ''none'' ''mp4a'' None None None"
  let ?c160 = "example_candidate ''160'' (Some 100) ''mp4'' ''avc1'' ''none'' None None None"
  let ?e22 = "example_entry ''22'' ''720p (with audio)'' ''mp4'' ''video'' (Some 3000) None (Some 720)"
  let ?x140 = "example_candidate ''140'' None ''m4a'' ''none'' ''mp4a'' None (Some 128) (Some 128)"
  have up: "upper ''m4a'' = ''M4A''" by code_simp
  have s720: "str_int 720 = ''720''" and s1080: "str_int 1080 = ''1080''"
    and s128: "str_int 128 = ''128''"
    by (simp_all add: str_int_def str_nat.simps digit_char_def)
  note t1 = classification_cases [where c = ?sb, THEN conjunct1]
  have a1: "classify ?sb = None"
    using t1 by (simp add: example_candidate_def)
  note t2 = classification_cases [where c = ?c22 and h = 720, THEN conjunct2, THEN conjunct1]
  have a2: "classify ?c22 = Some (''video'', ''720p (with audio)'')"
    using t2 by (simp add: example_candidate_def s720)
  note t3 = classification_cases [where c = ?c137 and h = 1080, THEN conjunct2, THEN conjunct2, THEN conjunct1]
  have a3: "classify ?c137 = Some (''video'', ''1080p'')"
    using t3 by (simp add: example_candidate_def s1080)
  note t4 = classification_cases [where c = ?c140 and r = 128, THEN conjunct2, THEN conjunct2, THEN conjunct2, THEN conjunct1]
  have a4: "classify ?c140 = Some (''audio'', ''Audio 128kbps'')"
    using t4 by (simp add: example_candidate_def py_int_of_num_def s128)
  note t5 = classification_cases [where c = ?c139, THEN conjunct2, THEN conjunct2, THEN conjunct2, THEN conjunct2, THEN conjunct1]
  have r5: "list_all upper_in_range (fmt_ext ?c139)" by code_simp
  have a5: "classify ?c139 = Some (''audio'', ''Audio (M4A)'')"
    using t5 r5 by (simp add: example_candidate_def up)
  note t8 = classification_cases [where c = ?c160, THEN conjunct2, THEN conjunct2, THEN conjunct2, THEN conjunct2, THEN conjunct2, THEN conjunct2, THEN conjunct2, THEN conjunct1]
  have a6: "classify ?c160 = None"
    using t8 by (simp add: example_candidate_def)
  note t9 = classification_cases [where c = ?c160 and d = "[]", THEN conjunct2, THEN conjunct2, THEN conjunct2, THEN conjunct2, THEN conjunct2, THEN conjunct2, THEN conjunct2, THEN conjunct2, THEN conjunct1]
  have a7: "process_format [] ?c160 = Inr []"
    using t9 a6 by simp
  note t12 = classification_cases [where fs = example_formats and out = example_processed,
      THEN conjunct2, THEN conjunct2, THEN conjunct2, THEN conjunct2, THEN conjunct2, THEN conjunct2, THEN conjunct2, THEN conjunct2, THEN conjunct2, THEN conjunct2, THEN conjunct2, THEN conjunct1, THEN mp, OF example_run]
  have m22: "?e22 \<in> set example_processed" by (simp add: example_processed_def)
  note a8 = t12 [THEN bspec, OF m22, THEN conjunct1]
  note t13 = classification_cases [where fs = example_formats and out = example_processed,
      THEN conjunct2, THEN conjunct2, THEN conjunct2, THEN conjunct2, THEN conjunct2, THEN conjunct2, THEN conjunct2, THEN conjunct2, THEN conjunct2, THEN conjunct2, THEN conjunct2, THEN conjunct2, THEN conjunct1, THEN mp, OF example_run]
  have m140: "?x140 \<in> set example_formats" by (simp add: example_formats_def)
  have c140: "classify ?x140 = Some (''audio'', ''Audio 128kbps'')" by code_simp
  have x140: "fmt_ext ?x140 = ''m4a''" by (simp add: example_candidate_def)
  from t13 [THEN bspec, OF m140, THEN spec, THEN spec, THEN mp, OF c140]
  have a9: "\<exists>e \<in> set example_processed.
         pf_type e = ''audio'' \<and> pf_quality e = ''Audio 128kbps'' \<and> pf_ext e = ''m4a''"
    by (simp only: x140)
  show ?thesis
    by (intro conjI) (fact a1, fact a2, fact a3, fact a4, fact a5, fact a6, fact a7, fact a8, fact a9)
qed

end
